theory Spec2Isabelle
  imports Main
begin

section \<open>Status texts of the pump registry (Project.py, lines 16, 73, 74, 89)\<close>

text \<open>
  Python formats the integers of the f-strings in decimal. Strings are byte lists here; the
  one non-ASCII letter of the source texts (the e-ogonek of the Polish word for occupied) is
  written as its two UTF-8 bytes. The test \<open>endswith("Wolny")\<close> compares ASCII letters only,
  so it gives the same answer on bytes and on code points.
\<close>

definition digit_char :: "nat \<Rightarrow> char" where
  "digit_char d = ''0123456789'' ! d"

fun str_nat :: "nat \<Rightarrow> string" where
  "str_nat n = (if n < 10 then [digit_char n] else str_nat (n div 10) @ [digit_char (n mod 10)])"

declare str_nat.simps [simp del]

definition str_int :: "int \<Rightarrow> string" where
  "str_int k = (if k < 0 then CHR ''-'' # str_nat (nat (- k)) else str_nat (nat k))"

definition endswith :: "string \<Rightarrow> string \<Rightarrow> bool" where
  "endswith s suffix =
     (length suffix \<le> length s \<and> drop (length s - length suffix) s = suffix)"

text \<open>Line 16: \<open>f"D{i+1}: Wolny"\<close>.\<close>

definition fmt_free :: "int \<Rightarrow> string" where
  "fmt_free n = ''D'' @ str_int n @ '': Wolny''"

text \<open>Line 74: \<open>f"D{i+1}: Zaj\<dots>ty przez V{self.id}"\<close>.\<close>

definition fmt_occupied :: "int \<Rightarrow> int \<Rightarrow> string" where
  "fmt_occupied n v =
     ''D'' @ str_int n @ '': Zaj'' @ [CHR 0xC4, CHR 0x99] @ ''ty przez V'' @ str_int v"

text \<open>Line 89: \<open>f"D{pump_id}: Wolny (zwolniony przez V{self.id})"\<close>.\<close>

definition fmt_released :: "int \<Rightarrow> int \<Rightarrow> string" where
  "fmt_released n v = ''D'' @ str_int n @ '': Wolny (zwolniony przez V'' @ str_int v @ '')''"

text \<open>Line 73: the test the scan uses to recognise a free pump.\<close>

definition is_free :: "string \<Rightarrow> bool" where
  "is_free entry = endswith entry ''Wolny''"

section \<open>The scan for a free pump (Vehicle.run, lines 70-76)\<close>

datatype error = IndexError | ConfigurationError

text \<open>
  One pass through the body of the \<open>for\<close> loop, lines 72-76, which runs as a whole while
  PRINT_LOCK is held. \<open>Some p\<close> is the \<open>break\<close> with \<open>pump_id = p\<close>, \<open>None\<close> falls through to
  the next index. Reading \<open>pump_status[i]\<close> beyond the list raises.
\<close>

definition scan_iteration :: "int \<Rightarrow> nat \<Rightarrow> string list \<Rightarrow> error + (string list \<times> int option)" where
  "scan_iteration v i ps =
     (if i < length ps then
        (if is_free (ps ! i)
         then Inr (ps[i := fmt_occupied (int i + 1) v], Some (int i + 1))
         else Inr (ps, None))
      else Inl IndexError)"

section \<open>The shared state and the threads\<close>

text \<open>
  What \<open>safe_print\<close> writes: one event per printed line, with the numbers the line carries.
  The wording of the lines is presentation and is not modelled.
\<close>

datatype event =
    SimStart
  | Arrived int
  | Tanking int int
  | TankDone int
  | ErrorNoPump int
  | WaitCashier int
  | Paying int
  | Paid int
  | Left int
  | Status bool "string list"
  | Stopping
  | SimEnd

text \<open>Where a vehicle thread stands in \<open>Vehicle.run\<close> (the next line it executes).\<close>

datatype vpc =
    VStart          \<comment> \<open>line 64\<close>
  | VAcquire        \<comment> \<open>line 67, may block\<close>
  | VScan nat       \<comment> \<open>lines 71-76, loop index\<close>
  | VSelect         \<comment> \<open>lines 83-84\<close>
  | VTankPrint      \<comment> \<open>line 32\<close>
  | VTankSleep      \<comment> \<open>lines 33-34\<close>
  | VTankDone       \<comment> \<open>line 35\<close>
  | VReleaseStatus  \<comment> \<open>lines 88-89\<close>
  | VReleaseSem     \<comment> \<open>line 91\<close>
  | VPayWait        \<comment> \<open>line 43\<close>
  | VPayLock        \<comment> \<open>line 45, may block\<close>
  | VPayBusy        \<comment> \<open>line 46\<close>
  | VPayPrint       \<comment> \<open>line 47\<close>
  | VPaySleep       \<comment> \<open>lines 49-50\<close>
  | VPaidPrint      \<comment> \<open>line 52\<close>
  | VPayFree        \<comment> \<open>line 53\<close>
  | VPayUnlock      \<comment> \<open>end of the with block of line 45\<close>
  | VLeftPrint      \<comment> \<open>line 95\<close>
  | VError          \<comment> \<open>line 98\<close>
  | VErrorRelease   \<comment> \<open>line 99\<close>
  | VDone           \<comment> \<open>run has returned\<close>
  | VCrashed        \<comment> \<open>run was left by an exception\<close>

text \<open>
  A vehicle thread: \<open>self.id\<close>, its program point, and the local variable \<open>pump_id\<close> of
  \<open>run\<close>. The variable exists only from line 70 on, which sets it to \<open>-1\<close>; before that the
  field holds \<open>-1\<close> as well and nothing reads it.
\<close>

record vehicle =
  vid :: int
  pc :: vpc
  pump_id :: int

text \<open>Where the manager thread stands in \<open>StationManager.run\<close>.\<close>

datatype mpc =
    MStart          \<comment> \<open>line 115\<close>
  | MLoop           \<comment> \<open>line 117\<close>
  | MSleep          \<comment> \<open>line 119\<close>
  | MIncr           \<comment> \<open>line 120\<close>
  | MSpawn          \<comment> \<open>lines 121-123\<close>
  | MDisplay        \<comment> \<open>line 126, into display_status: line 139\<close>
  | MDisplayJoin    \<comment> \<open>line 140\<close>
  | MDisplayPrint   \<comment> \<open>line 141\<close>
  | MStopPrint      \<comment> \<open>line 128\<close>
  | MJoin nat       \<comment> \<open>lines 131-132, position in vehicle_threads\<close>
  | MEndPrint       \<comment> \<open>line 134\<close>
  | MDone

text \<open>
  The module globals of Project.py (lines 8-16), the fields of the one StationManager and
  its local list \<open>vehicle_threads\<close>, and the printed output. \<open>sem\<close> is the counter of
  PUMPS_SEMAPHORE, \<open>CASHIER_LOCK\<close> is true while the lock is taken. \<open>status_cashier\<close> and
  \<open>status_pumps\<close> are the two parts of the local \<open>status_line\<close> of \<open>display_status\<close>: what
  line 139 has read of the lock and what line 140 has read of \<open>pump_status\<close>, both without
  PRINT_LOCK and some time before line 141 prints them.
\<close>

record station =
  NUM_PUMPS :: nat
  sem :: nat
  CASHIER_LOCK :: bool
  CASHIER_BUSY :: bool
  VEHICLE_COUNT :: int
  pump_status :: "string list"
  pumps :: "int list"
  max_vehicles :: int
  running :: bool
  mpc :: mpc
  vehicle_threads :: "vehicle list"
  status_cashier :: bool
  status_pumps :: "string list"
  printed :: "event list"

definition emit :: "event \<Rightarrow> station \<Rightarrow> station" where
  "emit e s = s\<lparr>printed := printed s @ [e]\<rparr>"

text \<open>
  Python's \<open>xs[j] = y\<close>: a negative index counts from the end, an index outside the list
  raises.
\<close>

definition py_index :: "nat \<Rightarrow> int \<Rightarrow> nat option" where
  "py_index len j =
     (if 0 \<le> j \<and> j < int len then Some (nat j)
      else if j < 0 \<and> - int len \<le> j then Some (nat (int len + j))
      else None)"

text \<open>
  One step of a vehicle thread: the statement at its program point, on the shared state.
  The result is the vehicle's new local state and the new shared state; \<open>None\<close> means the
  thread cannot move (it waits for the semaphore or the lock, or it has ended). Each block
  \<open>with PRINT_LOCK\<close>, and each call of \<open>safe_print\<close>, is one step: these blocks are the only
  writers of \<open>pump_status\<close> and of the output, each holds PRINT_LOCK from its first to its
  last statement, and none of them waits for anything inside.
\<close>

fun vstep :: "vpc \<Rightarrow> vehicle \<Rightarrow> station \<Rightarrow> (vehicle \<times> station) option" where
  "vstep VStart v s = Some (v\<lparr>pc := VAcquire\<rparr>, emit (Arrived (vid v)) s)"
| "vstep VAcquire v s =
     (if 0 < sem s then Some (v\<lparr>pc := VScan 0, pump_id := - 1\<rparr>, s\<lparr>sem := sem s - 1\<rparr>)
      else None)"
| "vstep (VScan i) v s =
     (if i < NUM_PUMPS s then
        (case scan_iteration (vid v) i (pump_status s) of
           Inl e \<Rightarrow> Some (v\<lparr>pc := VCrashed\<rparr>, s)
         | Inr (ps', Some p) \<Rightarrow> Some (v\<lparr>pc := VSelect, pump_id := p\<rparr>, s\<lparr>pump_status := ps'\<rparr>)
         | Inr (ps', None) \<Rightarrow> Some (v\<lparr>pc := VScan (Suc i)\<rparr>, s\<lparr>pump_status := ps'\<rparr>))
      else Some (v\<lparr>pc := VSelect\<rparr>, s))"
| "vstep VSelect v s =
     (case find (\<lambda>p. p = pump_id v) (pumps s) of
        Some p \<Rightarrow> Some (v\<lparr>pc := VTankPrint\<rparr>, s)
      | None \<Rightarrow> Some (v\<lparr>pc := VError\<rparr>, s))"
| "vstep VTankPrint v s = Some (v\<lparr>pc := VTankSleep\<rparr>, emit (Tanking (vid v) (pump_id v)) s)"
| "vstep VTankSleep v s = Some (v\<lparr>pc := VTankDone\<rparr>, s)"
| "vstep VTankDone v s = Some (v\<lparr>pc := VReleaseStatus\<rparr>, emit (TankDone (vid v)) s)"
| "vstep VReleaseStatus v s =
     (case py_index (length (pump_status s)) (pump_id v - 1) of
        Some j \<Rightarrow> Some (v\<lparr>pc := VReleaseSem\<rparr>,
                        s\<lparr>pump_status := (pump_status s)[j := fmt_released (pump_id v) (vid v)]\<rparr>)
      | None \<Rightarrow> Some (v\<lparr>pc := VCrashed\<rparr>, s))"
| "vstep VReleaseSem v s = Some (v\<lparr>pc := VPayWait\<rparr>, s\<lparr>sem := sem s + 1\<rparr>)"
| "vstep VPayWait v s = Some (v\<lparr>pc := VPayLock\<rparr>, emit (WaitCashier (vid v)) s)"
| "vstep VPayLock v s =
     (if CASHIER_LOCK s then None else Some (v\<lparr>pc := VPayBusy\<rparr>, s\<lparr>CASHIER_LOCK := True\<rparr>))"
| "vstep VPayBusy v s = Some (v\<lparr>pc := VPayPrint\<rparr>, s\<lparr>CASHIER_BUSY := True\<rparr>)"
| "vstep VPayPrint v s = Some (v\<lparr>pc := VPaySleep\<rparr>, emit (Paying (vid v)) s)"
| "vstep VPaySleep v s = Some (v\<lparr>pc := VPaidPrint\<rparr>, s)"
| "vstep VPaidPrint v s = Some (v\<lparr>pc := VPayFree\<rparr>, emit (Paid (vid v)) s)"
| "vstep VPayFree v s = Some (v\<lparr>pc := VPayUnlock\<rparr>, s\<lparr>CASHIER_BUSY := False\<rparr>)"
| "vstep VPayUnlock v s = Some (v\<lparr>pc := VLeftPrint\<rparr>, s\<lparr>CASHIER_LOCK := False\<rparr>)"
| "vstep VLeftPrint v s = Some (v\<lparr>pc := VDone\<rparr>, emit (Left (vid v)) s)"
| "vstep VError v s = Some (v\<lparr>pc := VErrorRelease\<rparr>, emit (ErrorNoPump (vid v)) s)"
| "vstep VErrorRelease v s = Some (v\<lparr>pc := VDone\<rparr>, s\<lparr>sem := sem s + 1\<rparr>)"
| "vstep VDone v s = None"
| "vstep VCrashed v s = None"

text \<open>A thread that \<open>join\<close> no longer waits for.\<close>

definition terminated :: "vehicle \<Rightarrow> bool" where
  "terminated v = (pc v = VDone \<or> pc v = VCrashed)"

text \<open>One step of the manager thread.\<close>

fun mstep :: "mpc \<Rightarrow> station \<Rightarrow> station option" where
  "mstep MStart s = Some (emit SimStart (s\<lparr>mpc := MLoop\<rparr>))"
| "mstep MLoop s =
     (if VEHICLE_COUNT s < max_vehicles s \<and> running s then Some (s\<lparr>mpc := MSleep\<rparr>)
      else Some (s\<lparr>mpc := MStopPrint\<rparr>))"
| "mstep MSleep s = Some (s\<lparr>mpc := MIncr\<rparr>)"
| "mstep MIncr s = Some (s\<lparr>mpc := MSpawn, VEHICLE_COUNT := VEHICLE_COUNT s + 1\<rparr>)"
| "mstep MSpawn s =
     Some (s\<lparr>mpc := MDisplay,
             vehicle_threads := vehicle_threads s @
               [\<lparr>vid = VEHICLE_COUNT s, pc = VStart, pump_id = - 1\<rparr>]\<rparr>)"
| "mstep MDisplay s = Some (s\<lparr>mpc := MDisplayJoin, status_cashier := CASHIER_LOCK s\<rparr>)"
| "mstep MDisplayJoin s = Some (s\<lparr>mpc := MDisplayPrint, status_pumps := pump_status s\<rparr>)"
| "mstep MDisplayPrint s =
     Some (emit (Status (status_cashier s) (status_pumps s)) (s\<lparr>mpc := MLoop\<rparr>))"
| "mstep MStopPrint s = Some (emit Stopping (s\<lparr>mpc := MJoin 0\<rparr>))"
| "mstep (MJoin k) s =
     (if k < length (vehicle_threads s) then
        (if terminated (vehicle_threads s ! k) then Some (s\<lparr>mpc := MJoin (Suc k)\<rparr>) else None)
      else Some (s\<lparr>mpc := MEndPrint\<rparr>))"
| "mstep MEndPrint s = Some (emit SimEnd (s\<lparr>mpc := MDone\<rparr>))"
| "mstep MDone s = None"

text \<open>
  Who moves next: the manager, the vehicle at a position of \<open>vehicle_threads\<close>, or the
  caller of \<open>StationManager.stop\<close> (lines 143-144), which may come at any moment.
\<close>

datatype actor = Manager | Vehicle nat | StopRequest

fun exec :: "actor \<Rightarrow> station \<Rightarrow> station option" where
  "exec Manager s = mstep (mpc s) s"
| "exec (Vehicle k) s =
     (if k < length (vehicle_threads s) then
        (case vstep (pc (vehicle_threads s ! k)) (vehicle_threads s ! k) s of
           None \<Rightarrow> None
         | Some (v', s') \<Rightarrow> Some (s'\<lparr>vehicle_threads := (vehicle_threads s')[k := v']\<rparr>))
      else None)"
| "exec StopRequest s = Some (s\<lparr>running := False\<rparr>)"

text \<open>Running a schedule: the actors move one after the other in the given order.\<close>

fun run_schedule :: "actor list \<Rightarrow> station \<Rightarrow> station option" where
  "run_schedule [] s = Some s"
| "run_schedule (a # as) s =
     (case exec a s of None \<Rightarrow> None | Some s' \<Rightarrow> run_schedule as s')"

text \<open>
  The state in which a run starts, for \<open>n\<close> pumps and a vehicle maximum \<open>m\<close>: lines 8-16 and
  151-155 of Project.py with \<open>n = 3\<close>, \<open>m = 10\<close>, and lines 115-126 of gui.py in general.
\<close>

definition init_station :: "nat \<Rightarrow> int \<Rightarrow> station" where
  "init_station n m =
     \<lparr>NUM_PUMPS = n, sem = n, CASHIER_LOCK = False, CASHIER_BUSY = False, VEHICLE_COUNT = 0,
      pump_status = map (\<lambda>i. fmt_free (int i + 1)) [0..<n],
      pumps = map (\<lambda>i. int i + 1) [0..<n],
      max_vehicles = m, running = True, mpc = MStart, vehicle_threads = [],
      status_cashier = False, status_pumps = [], printed = []\<rparr>"

text \<open>
  \<open>StationGUI.start_simulation\<close> (gui.py, lines 107-127) on the two numbers of the entry
  fields: nothing happens while a manager is alive, otherwise both numbers are raised to
  at least 1 and the run starts.
\<close>

definition start_simulation :: "bool \<Rightarrow> int \<Rightarrow> int \<Rightarrow> (error + station) option" where
  "start_simulation manager_alive pumps_var max_var =
     (if manager_alive then None
      else (let n_pumps = max 1 pumps_var; max_veh = max 1 max_var
            in Some (Inr (init_station (nat n_pumps) max_veh))))"

text \<open>The states of a run: every interleaving of the threads' steps from the start.\<close>

inductive reachable :: "nat \<Rightarrow> int \<Rightarrow> station \<Rightarrow> bool" for n :: nat and m :: int where
  start: "reachable n m (init_station n m)"
| step: "reachable n m s \<Longrightarrow> exec a s = Some s' \<Longrightarrow> reachable n m s'"

inductive steps :: "station \<Rightarrow> station \<Rightarrow> bool" where
  stay: "steps s s"
| after: "steps s s' \<Longrightarrow> exec a s' = Some s'' \<Longrightarrow> steps s s''"

text \<open>
  The program points at which a vehicle has a slot of PUMPS_SEMAPHORE (after line 67,
  before line 91 or 99). Both statements that can raise stand between the two, so a thread
  that was left by an exception has never given its slot back.
\<close>

fun holds_slot :: "vpc \<Rightarrow> bool" where
  "holds_slot (VScan i) = True"
| "holds_slot VSelect = True"
| "holds_slot VTankPrint = True"
| "holds_slot VTankSleep = True"
| "holds_slot VTankDone = True"
| "holds_slot VReleaseStatus = True"
| "holds_slot VReleaseSem = True"
| "holds_slot VError = True"
| "holds_slot VErrorRelease = True"
| "holds_slot VCrashed = True"
| "holds_slot _ = False"

text \<open>Fueling: inside \<open>Pump.tank\<close> (lines 32-35).\<close>

fun fueling :: "vpc \<Rightarrow> bool" where
  "fueling VTankPrint = True"
| "fueling VTankSleep = True"
| "fueling VTankDone = True"
| "fueling _ = False"

text \<open>Paying: inside the block \<open>with CASHIER_LOCK\<close> (lines 46-53).\<close>

fun paying :: "vpc \<Rightarrow> bool" where
  "paying VPayBusy = True"
| "paying VPayPrint = True"
| "paying VPaySleep = True"
| "paying VPaidPrint = True"
| "paying VPayFree = True"
| "paying VPayUnlock = True"
| "paying _ = False"

text \<open>How many vehicle threads hold a slot of the semaphore, are fueling, are paying.\<close>

definition holders :: "station \<Rightarrow> nat" where
  "holders s = length (filter (\<lambda>v. holds_slot (pc v)) (vehicle_threads s))"

definition fueling_count :: "station \<Rightarrow> nat" where
  "fueling_count s = length (filter (\<lambda>v. fueling (pc v)) (vehicle_threads s))"

definition paying_count :: "station \<Rightarrow> nat" where
  "paying_count s = length (filter (\<lambda>v. paying (pc v)) (vehicle_threads s))"

text \<open>The arrival ids of the vehicles spawned so far, in the order of spawning.\<close>

definition spawned_ids :: "station \<Rightarrow> int list" where
  "spawned_ids s = map vid (vehicle_threads s)"

text \<open>
  A vehicle has claimed an entry of \<open>pump_status\<close> and not yet overwritten it: from the
  \<open>break\<close> of line 76 up to line 89.
\<close>

definition claimed :: "vehicle \<Rightarrow> bool" where
  "claimed v = ((pc v = VSelect \<and> pump_id v \<noteq> - 1) \<or> fueling (pc v) \<or> pc v = VReleaseStatus)"

text \<open>The program points after line 89 on the path through the tank.\<close>

fun after_release :: "vpc \<Rightarrow> bool" where
  "after_release VReleaseSem = True"
| "after_release VPayWait = True"
| "after_release VPayLock = True"
| "after_release VPayBusy = True"
| "after_release VPayPrint = True"
| "after_release VPaySleep = True"
| "after_release VPaidPrint = True"
| "after_release VPayFree = True"
| "after_release VPayUnlock = True"
| "after_release VLeftPrint = True"
| "after_release VDone = True"
| "after_release _ = False"

text \<open>The program points after line 91: the slot of the semaphore has been given back.\<close>

definition slot_returned :: "vehicle \<Rightarrow> bool" where
  "slot_returned v = (after_release (pc v) \<and> pc v \<noteq> VReleaseSem \<and> pump_id v \<noteq> - 1)"

text \<open>The program points at which no pump has been found (yet): \<open>pump_id\<close> is \<open>-1\<close> there.\<close>

fun no_pump_yet :: "vpc \<Rightarrow> bool" where
  "no_pump_yet VStart = True"
| "no_pump_yet VAcquire = True"
| "no_pump_yet (VScan i) = True"
| "no_pump_yet VError = True"
| "no_pump_yet VErrorRelease = True"
| "no_pump_yet _ = False"

text \<open>The entry of \<open>pump_status\<close> that belongs to the pump a vehicle has found.\<close>

definition entry_of :: "vehicle \<Rightarrow> nat" where
  "entry_of v = nat (pump_id v - 1)"

text \<open>
  What holds of one vehicle thread against the registry \<open>ps\<close> of \<open>n\<close> pumps at every moment
  of a run: its claimed entry shows it as the occupant, its released entry shows the
  release text, and a scan at index \<open>i\<close> has seen no free entry below \<open>i\<close>.
\<close>

definition vehicle_ok :: "nat \<Rightarrow> string list \<Rightarrow> vehicle \<Rightarrow> bool" where
  "vehicle_ok n ps v =
     (pc v \<noteq> VCrashed
      \<and> (no_pump_yet (pc v) \<longrightarrow> pump_id v = - 1)
      \<and> (pump_id v \<noteq> - 1 \<longrightarrow> 1 \<le> pump_id v \<and> pump_id v \<le> int n)
      \<and> (claimed v \<longrightarrow>
            pump_id v \<noteq> - 1 \<and> ps ! entry_of v = fmt_occupied (pump_id v) (vid v))
      \<and> (after_release (pc v) \<and> pc v \<noteq> VDone \<longrightarrow> pump_id v \<noteq> - 1)
      \<and> (after_release (pc v) \<and> pump_id v \<noteq> - 1 \<longrightarrow>
            ps ! entry_of v = fmt_released (pump_id v) (vid v))
      \<and> (\<forall>i. pc v = VScan i \<longrightarrow> i \<le> n \<and> (\<forall>j<i. \<not> is_free (ps ! j))))"

definition registry_inv :: "nat \<Rightarrow> station \<Rightarrow> bool" where
  "registry_inv n s =
     (NUM_PUMPS s = n \<and> length (pump_status s) = n
      \<and> pumps s = map (\<lambda>i. int i + 1) [0..<n]
      \<and> (\<forall>k<length (vehicle_threads s). vehicle_ok n (pump_status s) (vehicle_threads s ! k))
      \<and> (\<forall>k<length (vehicle_threads s). \<forall>j<length (vehicle_threads s).
            k \<noteq> j \<and> claimed (vehicle_threads s ! k) \<and> claimed (vehicle_threads s ! j)
            \<longrightarrow> pump_id (vehicle_threads s ! k) \<noteq> pump_id (vehicle_threads s ! j))
      \<and> (\<forall>i<n. is_free (pump_status s ! i) \<longrightarrow> pump_status s ! i = fmt_free (int i + 1)))"

text \<open>
  A run with one pump and two vehicles in which the manager spawns both vehicles and then
  the first vehicle moves \<open>k\<close> steps and the second \<open>j\<close> steps.
\<close>

definition two_vehicle_schedule :: "nat \<Rightarrow> nat \<Rightarrow> actor list" where
  "two_vehicle_schedule k j = replicate 12 Manager @ replicate k (Vehicle 0) @ replicate j (Vehicle 1)"

definition two_vehicle_run :: "nat \<Rightarrow> nat \<Rightarrow> station" where
  "two_vehicle_run k j = the (run_schedule (two_vehicle_schedule k j) (init_station 1 2))"

text \<open>The manager is between the loop test and the start of the next vehicle (lines 119-123).\<close>

fun spawning :: "mpc \<Rightarrow> bool" where
  "spawning MSleep = True"
| "spawning MIncr = True"
| "spawning MSpawn = True"
| "spawning _ = False"

text \<open>
  The vehicle at position \<open>k\<close>, with arrival id \<open>x\<close>, is on the path of a failed scan: at the
  test of line 84 with \<open>pump_id = -1\<close>, or in the \<open>else\<close> branch of lines 96-99, or past it
  with the error line printed.
\<close>

definition error_path :: "nat \<Rightarrow> int \<Rightarrow> station \<Rightarrow> bool" where
  "error_path k x s =
     (k < length (vehicle_threads s) \<and> vid (vehicle_threads s ! k) = x
      \<and> pump_id (vehicle_threads s ! k) = - 1
      \<and> find (\<lambda>p. p = - 1) (pumps s) = None
      \<and> (pc (vehicle_threads s ! k) = VSelect \<or> pc (vehicle_threads s ! k) = VError
          \<or> ((pc (vehicle_threads s ! k) = VErrorRelease \<or> pc (vehicle_threads s ! k) = VDone)
              \<and> ErrorNoPump x \<in> set (printed s))))"

text \<open>
  What the manager's \<open>join\<close> loop has established: the threads it has passed have ended, and
  the last line is printed only after the loop.
\<close>

definition join_inv :: "station \<Rightarrow> bool" where
  "join_inv s =
     ((\<forall>j. mpc s = MJoin j \<longrightarrow>
          j \<le> length (vehicle_threads s) \<and> (\<forall>i<j. terminated (vehicle_threads s ! i)))
      \<and> (mpc s = MEndPrint \<or> mpc s = MDone \<longrightarrow> list_all terminated (vehicle_threads s))
      \<and> (SimEnd \<in> set (printed s) \<longrightarrow> mpc s = MDone))"

text \<open>
  A run of Project.py's own configuration (three pumps, at most ten vehicles) in which
  \<open>stop\<close> is called after the first vehicle has been started, and its continuation until
  the manager has printed its last line.
\<close>

definition stop_after_first :: "actor list" where
  "stop_after_first = replicate 8 Manager @ [StopRequest]"

definition drain :: "actor list" where
  "drain = replicate 2 Manager @ replicate 18 (Vehicle 0) @ replicate 3 Manager"

definition stopped_station :: station where
  "stopped_station = the (run_schedule stop_after_first (init_station 3 10))"

definition drained_station :: station where
  "drained_station = the (run_schedule drain stopped_station)"

text \<open>A manager built with \<open>max_vehicles = 0\<close>, run to its end.\<close>

definition empty_run :: station where
  "empty_run = the (run_schedule (replicate 5 Manager) (init_station 3 0))"

text \<open>
  The operation \<open>claimFreeSlot\<close> as the specification words it (section 4.2), for comparison
  with the scan of the code: run as one operation on the registry, it takes the first entry
  in ascending order that is free, makes it occupied by the vehicle and returns its pump
  number; it returns nothing and leaves the registry alone when no entry is free. Free is
  the test of line 73, occupied is the text of line 74.
\<close>

definition spec_claimFreeSlot :: "int \<Rightarrow> string list \<Rightarrow> string list \<times> int option" where
  "spec_claimFreeSlot v ps =
     (let i = length (takeWhile (\<lambda>e. \<not> is_free e) ps)
      in if i < length ps then (ps[i := fmt_occupied (int i + 1) v], Some (int i + 1))
         else (ps, None))"

text \<open>
  A run with three pumps and three vehicles: all three are started, the first vehicle has
  claimed pump 1, and the second stands at the first entry of its scan. In the
  continuation the third vehicle scans and claims while the second is between two entries.
\<close>

definition scan_start :: station where
  "scan_start =
     the (run_schedule (replicate 19 Manager @ replicate 3 (Vehicle 0) @ replicate 2 (Vehicle 1))
            (init_station 3 3))"

definition overtaken_scan :: "actor list" where
  "overtaken_scan = [Vehicle 1] @ replicate 4 (Vehicle 2) @ replicate 2 (Vehicle 1)"

text \<open>An entry of the registry that shows some vehicle as the occupant of some pump.\<close>

definition shows_occupied :: "string \<Rightarrow> bool" where
  "shows_occupied e = (\<exists>p x. e = fmt_occupied p x)"

definition occupied_entries :: "station \<Rightarrow> nat set" where
  "occupied_entries s = {i. i < length (pump_status s) \<and> shows_occupied (pump_status s ! i)}"

text \<open>Every entry that shows an occupant is the claimed entry of a vehicle thread.\<close>

definition owned_inv :: "station \<Rightarrow> bool" where
  "owned_inv s =
     (\<forall>i<length (pump_status s). shows_occupied (pump_status s ! i) \<longrightarrow>
        (\<exists>k<length (vehicle_threads s).
           claimed (vehicle_threads s ! k) \<and> entry_of (vehicle_threads s ! k) = i))"

section \<open>Properties of the status texts\<close>

lemma str_nat_nonempty: "str_nat n \<noteq> []"
  by (subst str_nat.simps) simp

lemma last_str_nat: "last (str_nat n) = digit_char (n mod 10)"
  by (subst str_nat.simps) simp

lemma digit_char_cases:
  "d < 10 \<Longrightarrow> digit_char d \<in> set ''0123456789''"
  unfolding digit_char_def by (rule nth_mem) simp

lemma last_str_nat_digit: "last (str_nat n) \<in> set ''0123456789''"
  unfolding last_str_nat by (rule digit_char_cases) simp

lemma str_int_nonempty: "str_int k \<noteq> []"
  by (simp add: str_int_def str_nat_nonempty)

lemma last_str_int_digit: "last (str_int k) \<in> set ''0123456789''"
  by (simp add: str_int_def str_nat_nonempty last_str_nat_digit del: set_simps)

lemma endswith_last: "endswith s t \<Longrightarrow> t \<noteq> [] \<Longrightarrow> last s = last t"
  unfolding endswith_def
  by (metis append_take_drop_id last_appendR)

lemma is_free_last: "is_free s \<Longrightarrow> last s = CHR ''y''"
  unfolding is_free_def by (drule endswith_last) simp_all

lemma is_free_fmt_free: "is_free (fmt_free n)"
  by (simp add: is_free_def endswith_def fmt_free_def)

lemma last_fmt_occupied: "last (fmt_occupied n v) \<in> set ''0123456789''"
  using last_str_int_digit[of v] by (simp add: fmt_occupied_def str_int_nonempty del: set_simps)

lemma last_fmt_released: "last (fmt_released n v) = CHR '')''"
  by (simp add: fmt_released_def)

lemma not_free_occupied: "\<not> is_free (fmt_occupied n v)"
  using last_fmt_occupied[of n v] is_free_last[of "fmt_occupied n v"] by auto

lemma not_free_released: "\<not> is_free (fmt_released n v)"
  using last_fmt_released[of n v] is_free_last[of "fmt_released n v"] by auto

lemma released_neq_occupied: "fmt_released n v \<noteq> fmt_occupied n' v'"
  using last_fmt_occupied[of n' v'] last_fmt_released[of n v] by auto

section \<open>Counting the threads at a program point\<close>

lemma count_update:
  "k < length xs \<Longrightarrow>
   length (filter P (xs[k := y])) + (if P (xs ! k) then 1 else 0)
     = length (filter P xs) + (if P y then 1 else 0)"
proof (induction xs arbitrary: k)
  case Nil
  then show ?case by simp
next
  case (Cons x xs)
  show ?case
  proof (cases k)
    case 0
    then show ?thesis by simp
  next
    case (Suc j)
    with Cons.prems have "j < length xs" by simp
    from Cons.IH[OF this] Suc show ?thesis by simp
  qed
qed

lemma count_pos: "k < length xs \<Longrightarrow> P (xs ! k) \<Longrightarrow> 0 < length (filter P xs)"
  by (metis filter_empty_conv length_greater_0_conv nth_mem)

lemma vstep_frame:
  "vstep p v s = Some (v', t) \<Longrightarrow>
     vehicle_threads t = vehicle_threads s \<and> vid v' = vid v \<and> mpc t = mpc s \<and>
     VEHICLE_COUNT t = VEHICLE_COUNT s \<and> running t = running s \<and>
     max_vehicles t = max_vehicles s \<and> NUM_PUMPS t = NUM_PUMPS s \<and> pumps t = pumps s \<and>
     length (pump_status t) = length (pump_status s)"
  by (cases p)
     (auto simp: emit_def scan_iteration_def split: if_splits option.splits sum.splits prod.splits)

lemma exec_Vehicle_Some:
  assumes "exec (Vehicle k) s = Some s'"
  obtains v' t where "k < length (vehicle_threads s)"
    and "vstep (pc (vehicle_threads s ! k)) (vehicle_threads s ! k) s = Some (v', t)"
    and "s' = t\<lparr>vehicle_threads := (vehicle_threads s)[k := v']\<rparr>"
proof -
  from assms have k: "k < length (vehicle_threads s)" by (simp split: if_splits)
  with assms obtain v' t where
    st: "vstep (pc (vehicle_threads s ! k)) (vehicle_threads s ! k) s = Some (v', t)"
    and s': "s' = t\<lparr>vehicle_threads := (vehicle_threads t)[k := v']\<rparr>"
    by (auto split: option.splits)
  from vstep_frame[OF st] s' have "s' = t\<lparr>vehicle_threads := (vehicle_threads s)[k := v']\<rparr>"
    by simp
  with k st show ?thesis by (rule that)
qed

lemma vstep_sem:
  "vstep (pc v) v s = Some (v', t) \<Longrightarrow>
   sem t + (if holds_slot (pc v') then 1 else 0) = sem s + (if holds_slot (pc v) then 1 else 0)"
  by (cases "pc v")
     (auto simp: emit_def scan_iteration_def split: if_splits option.splits sum.splits prod.splits)

lemma mstep_holders:
  "mstep p s = Some s' \<Longrightarrow> sem s' = sem s \<and> holders s' = holders s"
  by (cases p) (auto simp: emit_def holders_def split: if_splits)

lemma exec_sem_holders:
  assumes "exec a s = Some s'"
  shows "sem s' + holders s' = sem s + holders s"
proof (cases a)
  case Manager
  with assms mstep_holders[of "mpc s" s s'] show ?thesis by simp
next
  case (Vehicle k)
  with assms have "exec (Vehicle k) s = Some s'" by simp
  then obtain v' t where k: "k < length (vehicle_threads s)"
    and st: "vstep (pc (vehicle_threads s ! k)) (vehicle_threads s ! k) s = Some (v', t)"
    and s': "s' = t\<lparr>vehicle_threads := (vehicle_threads s)[k := v']\<rparr>"
    by (rule exec_Vehicle_Some)
  from count_update[OF k, of "\<lambda>v. holds_slot (pc v)" v'] vstep_sem[OF st] s'
  show ?thesis by (simp add: holders_def split: if_splits)
next
  case StopRequest
  with assms show ?thesis by (auto simp: holders_def)
qed

lemma reachable_sem_holders: "reachable n m s \<Longrightarrow> sem s + holders s = n"
proof (induction rule: reachable.induct)
  case start
  show ?case by (simp add: init_station_def holders_def)
next
  case (step s a s')
  with exec_sem_holders[OF step.hyps(2)] show ?case by simp
qed

lemma fueling_le_holders: "fueling_count s \<le> holders s"
proof -
  have "\<And>p. fueling p \<Longrightarrow> holds_slot p" by (case_tac p) simp_all
  then have "filter (\<lambda>v. fueling (pc v)) (vehicle_threads s)
     = filter (\<lambda>v. fueling (pc v)) (filter (\<lambda>v. holds_slot (pc v)) (vehicle_threads s))"
    by (auto simp: filter_filter intro!: filter_cong)
  then show ?thesis unfolding fueling_count_def holders_def
    by (metis length_filter_le)
qed

section \<open>The cashier lock and the arrival ids\<close>

lemma vstep_lock:
  "vstep (pc v) v s = Some (v', t) \<Longrightarrow> (paying (pc v) \<longrightarrow> CASHIER_LOCK s) \<Longrightarrow>
   (if CASHIER_LOCK t then 1 else 0) + (if paying (pc v) then 1 else 0)
     = (if CASHIER_LOCK s then 1::nat else 0) + (if paying (pc v') then 1 else 0)"
  by (cases "pc v")
     (auto simp: emit_def scan_iteration_def split: if_splits option.splits sum.splits prod.splits)

lemma mstep_paying:
  "mstep p s = Some s' \<Longrightarrow> CASHIER_LOCK s' = CASHIER_LOCK s \<and> paying_count s' = paying_count s"
  by (cases p) (auto simp: emit_def paying_count_def split: if_splits)

lemma exec_paying:
  assumes "exec a s = Some s'" and inv: "paying_count s = (if CASHIER_LOCK s then 1 else 0)"
  shows "paying_count s' = (if CASHIER_LOCK s' then 1 else 0)"
proof (cases a)
  case Manager
  with assms mstep_paying[of "mpc s" s s'] show ?thesis by simp
next
  case (Vehicle k)
  with assms have "exec (Vehicle k) s = Some s'" by simp
  then obtain v' t where k: "k < length (vehicle_threads s)"
    and st: "vstep (pc (vehicle_threads s ! k)) (vehicle_threads s ! k) s = Some (v', t)"
    and s': "s' = t\<lparr>vehicle_threads := (vehicle_threads s)[k := v']\<rparr>"
    by (rule exec_Vehicle_Some)
  have held: "paying (pc (vehicle_threads s ! k)) \<longrightarrow> CASHIER_LOCK s"
    using count_pos[OF k, of "\<lambda>v. paying (pc v)"] inv
    by (auto simp: paying_count_def split: if_splits)
  from count_update[OF k, of "\<lambda>v. paying (pc v)" v'] vstep_lock[OF st held] s' inv
  show ?thesis by (simp add: paying_count_def split: if_splits)
next
  case StopRequest
  with assms show ?thesis by (auto simp: paying_count_def)
qed

lemma reachable_paying: "reachable n m s \<Longrightarrow> paying_count s = (if CASHIER_LOCK s then 1 else 0)"
proof (induction rule: reachable.induct)
  case start
  show ?case by (simp add: init_station_def paying_count_def)
next
  case (step s a s')
  from exec_paying[OF step.hyps(2) step.IH] show ?case .
qed

lemma run_schedule_reachable:
  "reachable n m s \<Longrightarrow> run_schedule as s = Some s' \<Longrightarrow> reachable n m s'"
proof (induction as arbitrary: s)
  case Nil
  then show ?case by simp
next
  case (Cons a as)
  from Cons.prems(2) obtain t where t: "exec a s = Some t" and r: "run_schedule as t = Some s'"
    by (auto split: option.splits)
  from Cons.prems(1) t have "reachable n m t" by (rule reachable.step)
  from Cons.IH[OF this r] show ?case .
qed

lemma run_schedule_from_start:
  "run_schedule as (init_station n m) = Some s \<Longrightarrow> reachable n m s"
  using run_schedule_reachable[OF reachable.start] .


lemma mstep_ids:
  assumes "mstep (mpc s) s = Some s'"
    and "0 \<le> VEHICLE_COUNT s" and "mpc s = MSpawn \<longrightarrow> 1 \<le> VEHICLE_COUNT s"
    and "spawned_ids s = [1..(if mpc s = MSpawn then VEHICLE_COUNT s - 1 else VEHICLE_COUNT s)]"
  shows "0 \<le> VEHICLE_COUNT s' \<and> (mpc s' = MSpawn \<longrightarrow> 1 \<le> VEHICLE_COUNT s') \<and>
    spawned_ids s' = [1..(if mpc s' = MSpawn then VEHICLE_COUNT s' - 1 else VEHICLE_COUNT s')]"
proof (cases "mpc s")
  case MSpawn
  with assms have "1 \<le> VEHICLE_COUNT s" by simp
  then have "[1..VEHICLE_COUNT s - 1] @ [VEHICLE_COUNT s] = [1..VEHICLE_COUNT s]"
    by (simp add: upto_rec2)
  with assms MSpawn show ?thesis by (auto simp: spawned_ids_def)
qed (use assms in \<open>auto simp: emit_def spawned_ids_def split: if_splits\<close>)

lemma vstep_ids:
  assumes "exec (Vehicle k) s = Some s'"
  shows "spawned_ids s' = spawned_ids s \<and> VEHICLE_COUNT s' = VEHICLE_COUNT s \<and> mpc s' = mpc s"
proof -
  from assms obtain v' t where k: "k < length (vehicle_threads s)"
    and st: "vstep (pc (vehicle_threads s ! k)) (vehicle_threads s ! k) s = Some (v', t)"
    and s': "s' = t\<lparr>vehicle_threads := (vehicle_threads s)[k := v']\<rparr>"
    by (rule exec_Vehicle_Some)
  from vstep_frame[OF st] have "vid v' = vid (vehicle_threads s ! k)" by simp
  then have "map vid ((vehicle_threads s)[k := v']) = map vid (vehicle_threads s)"
    using k by (simp add: map_update list_update_same_conv)
  with s' vstep_frame[OF st] show ?thesis by (simp add: spawned_ids_def)
qed

lemma reachable_ids:
  "reachable n m s \<Longrightarrow> 0 \<le> VEHICLE_COUNT s \<and> (mpc s = MSpawn \<longrightarrow> 1 \<le> VEHICLE_COUNT s) \<and>
    spawned_ids s = [1..(if mpc s = MSpawn then VEHICLE_COUNT s - 1 else VEHICLE_COUNT s)]"
proof (induction rule: reachable.induct)
  case start
  show ?case by (simp add: init_station_def spawned_ids_def)
next
  case (step s a s')
  show ?case
  proof (cases a)
    case Manager
    with step.hyps(2) have "mstep (mpc s) s = Some s'" by simp
    from mstep_ids[OF this] step.IH show ?thesis by simp
  next
    case (Vehicle k)
    with step.hyps(2) have "exec (Vehicle k) s = Some s'" by simp
    from vstep_ids[OF this] step.IH show ?thesis by simp
  next
    case StopRequest
    with step.hyps(2) step.IH show ?thesis by (auto simp: spawned_ids_def)
  qed
qed

section \<open>Vehicle steps against the registry\<close>

lemma set_pumps: "set (map (\<lambda>i. int i + 1) [0..<n]) = {1..int n}"
proof (rule set_eqI)
  fix x :: int
  show "x \<in> set (map (\<lambda>i. int i + 1) [0..<n]) \<longleftrightarrow> x \<in> {1..int n}"
  proof
    assume "x \<in> set (map (\<lambda>i. int i + 1) [0..<n])"
    then show "x \<in> {1..int n}" by auto
  next
    assume x: "x \<in> {1..int n}"
    then have "nat (x - 1) < n" "x = int (nat (x - 1)) + 1" by auto
    then show "x \<in> set (map (\<lambda>i. int i + 1) [0..<n])"
      by (metis (mono_tags, lifting) atLeastLessThan_iff image_eqI le0 set_map set_upt)
  qed
qed

lemma find_pumps_Some:
  "1 \<le> x \<Longrightarrow> x \<le> int n \<Longrightarrow> find (\<lambda>p. p = x) (map (\<lambda>i. int i + 1) [0..<n]) \<noteq> None"
  unfolding find_None_iff set_pumps by simp

lemma find_pumps_None:
  "find (\<lambda>p. p = - 1) (map (\<lambda>i. int i + 1) [0..<n]) = None"
  unfolding find_None_iff set_pumps by simp

lemma py_index_in_range:
  "1 \<le> p \<Longrightarrow> p \<le> int n \<Longrightarrow> py_index n (p - 1) = Some (nat (p - 1))"
  by (simp add: py_index_def)

text \<open>The steps that leave the registry alone.\<close>

lemma vstep_quiet:
  assumes "vstep (pc v) v s = Some (v', t)"
    and "\<forall>i. pc v \<noteq> VScan i" and "pc v \<noteq> VSelect" and "pc v \<noteq> VReleaseStatus"
  shows "pump_status t = pump_status s \<and> vid v' = vid v
       \<and> (if pc v = VAcquire then pump_id v' = - 1 \<and> pc v' = VScan 0
           else pump_id v' = pump_id v
             \<and> (fueling (pc v') \<longrightarrow> fueling (pc v))
             \<and> (pc v' = VReleaseStatus \<longrightarrow> fueling (pc v))
             \<and> (after_release (pc v') \<longrightarrow> after_release (pc v) \<or> pc v = VErrorRelease)
             \<and> (after_release (pc v') \<and> pc v' \<noteq> VDone \<longrightarrow> after_release (pc v) \<and> pc v \<noteq> VDone)
             \<and> (no_pump_yet (pc v') \<longrightarrow> no_pump_yet (pc v))
             \<and> pc v' \<noteq> VSelect \<and> pc v' \<noteq> VCrashed \<and> (\<forall>i. pc v' \<noteq> VScan i))"
  using assms by (cases "pc v") (auto simp: emit_def split: if_splits)

text \<open>The three kinds of vehicle steps, as far as the registry is concerned.\<close>

lemma vstep_registry:
  assumes st: "vstep (pc v) v s = Some (v', t)"
    and n: "NUM_PUMPS s = n" "length (pump_status s) = n"
    and p: "pumps s = map (\<lambda>i. int i + 1) [0..<n]"
    and ok: "vehicle_ok n (pump_status s) v"
  shows "(pump_status t = pump_status s \<and> vehicle_ok n (pump_status s) v'
            \<and> (claimed v' \<longrightarrow> claimed v \<and> pump_id v' = pump_id v))
       \<or> (\<exists>i<n. is_free (pump_status s ! i) \<and> pc v = VScan i \<and> \<not> claimed v
            \<and> pump_status t = (pump_status s)[i := fmt_occupied (int i + 1) (vid v)]
            \<and> v' = v\<lparr>pc := VSelect, pump_id := int i + 1\<rparr>)
       \<or> (claimed v \<and> pc v = VReleaseStatus
            \<and> pump_status t = (pump_status s)[entry_of v := fmt_released (pump_id v) (vid v)]
            \<and> v' = v\<lparr>pc := VReleaseSem\<rparr>)"
proof (cases "pc v")
  case (VScan i)
  with ok have pid: "pump_id v = - 1" and i: "i \<le> n" and seen: "\<forall>j<i. \<not> is_free (pump_status s ! j)"
    by (simp_all add: vehicle_ok_def)
  have nc: "\<not> claimed v" using VScan by (simp add: claimed_def)
  show ?thesis
  proof (cases "i < n")
    case False
    with st VScan n have "v' = v\<lparr>pc := VSelect\<rparr>" "t = s" by simp_all
    with pid show ?thesis by (simp add: vehicle_ok_def claimed_def)
  next
    case True
    show ?thesis
    proof (cases "is_free (pump_status s ! i)")
      case free: True
      with st VScan n True
      have "v' = v\<lparr>pc := VSelect, pump_id := int i + 1\<rparr>"
        "pump_status t = (pump_status s)[i := fmt_occupied (int i + 1) (vid v)]"
        by (auto simp: scan_iteration_def)
      with True free VScan nc show ?thesis by blast
    next
      case nfree: False
      with st VScan n True
      have v': "v' = v\<lparr>pc := VScan (Suc i)\<rparr>" and t: "pump_status t = pump_status s"
        by (auto simp: scan_iteration_def)
      from seen nfree have "\<forall>j<Suc i. \<not> is_free (pump_status s ! j)"
        by (simp add: less_Suc_eq)
      with v' pid True have "vehicle_ok n (pump_status s) v'"
        by (simp add: vehicle_ok_def claimed_def)
      with v' t show ?thesis by (simp add: claimed_def)
    qed
  qed
next
  case VSelect
  show ?thesis
  proof (cases "pump_id v = - 1")
    case True
    with st VSelect p ok show ?thesis
      by (auto simp: vehicle_ok_def claimed_def find_pumps_None split: option.splits)
  next
    case False
    with ok have "1 \<le> pump_id v" "pump_id v \<le> int n" by (auto simp: vehicle_ok_def)
    from find_pumps_Some[OF this] st VSelect p ok False show ?thesis
      by (auto simp: vehicle_ok_def claimed_def entry_of_def split: option.splits)
  qed
next
  case VReleaseStatus
  with ok have c: "claimed v" and r: "1 \<le> pump_id v" "pump_id v \<le> int n"
    by (auto simp: vehicle_ok_def claimed_def)
  from py_index_in_range[OF r] st VReleaseStatus n c show ?thesis
    by (auto simp: entry_of_def)
next
  case VDone
  with st show ?thesis by simp
next
  case VCrashed
  with st show ?thesis by simp
qed (use vstep_quiet[OF st] ok in \<open>simp_all add: vehicle_ok_def claimed_def entry_of_def\<close>)

section \<open>The registry invariant\<close>

lemma vehicle_ok_update:
  assumes ok: "vehicle_ok n ps w" and x: "\<not> is_free x" and i: "i < length ps"
    and away: "claimed w \<or> (after_release (pc w) \<and> pump_id w \<noteq> - 1) \<Longrightarrow> entry_of w \<noteq> i"
  shows "vehicle_ok n (ps[i := x]) w"
proof -
  have scan: "\<not> is_free (ps[i := x] ! j)" if "\<not> is_free (ps ! j)" for j
    using that x i by (cases "j = i") simp_all
  have c: "ps[i := x] ! entry_of w = ps ! entry_of w" if "claimed w"
    using away that by simp
  have r: "ps[i := x] ! entry_of w = ps ! entry_of w" if "after_release (pc w) \<and> pump_id w \<noteq> - 1"
    using away that by simp
  from ok show ?thesis
    unfolding vehicle_ok_def using scan c r by auto
qed

lemma registry_inv_init: "registry_inv n (init_station n m)"
  by (simp add: registry_inv_def init_station_def)


lemma registry_inv_cong:
  "registry_inv n s \<Longrightarrow> NUM_PUMPS s' = NUM_PUMPS s \<Longrightarrow> pump_status s' = pump_status s \<Longrightarrow>
   pumps s' = pumps s \<Longrightarrow> vehicle_threads s' = vehicle_threads s \<Longrightarrow> registry_inv n s'"
  by (simp add: registry_inv_def)

lemma registry_inv_spawn:
  assumes inv: "registry_inv n s"
    and s': "NUM_PUMPS s' = NUM_PUMPS s" "pump_status s' = pump_status s" "pumps s' = pumps s"
      "vehicle_threads s' = vehicle_threads s @ [\<lparr>vid = c, pc = VStart, pump_id = - 1\<rparr>]"
  shows "registry_inv n s'"
proof -
  let ?new = "\<lparr>vid = c, pc = VStart, pump_id = - 1\<rparr>"
  let ?vs = "vehicle_threads s"
  have new_ok: "vehicle_ok n (pump_status s) ?new" by (simp add: vehicle_ok_def claimed_def)
  have new_nc: "\<not> claimed ?new" by (simp add: claimed_def)
  have nth: "(?vs @ [?new]) ! k = (if k < length ?vs then ?vs ! k else ?new)"
    if "k < Suc (length ?vs)" for k
    using that by (auto simp: nth_append less_Suc_eq)
  from inv have ok: "\<forall>k<length ?vs. vehicle_ok n (pump_status s) (?vs ! k)"
    and dis: "\<forall>k<length ?vs. \<forall>j<length ?vs.
            k \<noteq> j \<and> claimed (?vs ! k) \<and> claimed (?vs ! j) \<longrightarrow> pump_id (?vs ! k) \<noteq> pump_id (?vs ! j)"
    by (simp_all add: registry_inv_def)
  have ok': "\<forall>k<length (vehicle_threads s'). vehicle_ok n (pump_status s') (vehicle_threads s' ! k)"
    using ok new_ok s' by (simp add: nth)
  have dis': "\<forall>k<length (vehicle_threads s'). \<forall>j<length (vehicle_threads s').
            k \<noteq> j \<and> claimed (vehicle_threads s' ! k) \<and> claimed (vehicle_threads s' ! j)
            \<longrightarrow> pump_id (vehicle_threads s' ! k) \<noteq> pump_id (vehicle_threads s' ! j)"
  proof (intro allI impI)
    fix k j
    assume k: "k < length (vehicle_threads s')" and j: "j < length (vehicle_threads s')"
      and c: "k \<noteq> j \<and> claimed (vehicle_threads s' ! k) \<and> claimed (vehicle_threads s' ! j)"
    from k j s' have kk: "k < Suc (length ?vs)" and jj: "j < Suc (length ?vs)" by simp_all
    from c new_nc nth[OF kk] nth[OF jj] s' have "k < length ?vs" "j < length ?vs"
      by (auto split: if_splits)
    with dis c nth[OF kk] nth[OF jj] s'
    show "pump_id (vehicle_threads s' ! k) \<noteq> pump_id (vehicle_threads s' ! j)" by simp
  qed
  from inv s' ok' dis' show ?thesis by (simp add: registry_inv_def)
qed

lemma registry_inv_manager:
  assumes "registry_inv n s" and "mstep (mpc s) s = Some s'"
  shows "registry_inv n s'"
proof (cases "mpc s")
  case MSpawn
  with assms(2) show ?thesis by (intro registry_inv_spawn[OF assms(1)]) auto
qed (use assms(2) in \<open>auto simp: emit_def split: if_splits intro!: registry_inv_cong[OF assms(1)]\<close>)

lemma entry_of_eq:
  "1 \<le> pump_id v \<Longrightarrow> 1 \<le> pump_id w \<Longrightarrow> entry_of v = entry_of w \<Longrightarrow> pump_id v = pump_id w"
  by (simp add: entry_of_def)

lemma entry_of_pc: "entry_of (v\<lparr>pc := p\<rparr>) = entry_of v"
  by (simp add: entry_of_def)

lemma registry_inv_vehicle:
  assumes inv: "registry_inv n s" and ex: "exec (Vehicle k) s = Some s'"
  shows "registry_inv n s'"
proof -
  let ?vs = "vehicle_threads s" and ?ps = "pump_status s"
  from ex obtain v' t where k: "k < length ?vs"
    and st: "vstep (pc (?vs ! k)) (?vs ! k) s = Some (v', t)"
    and s': "s' = t\<lparr>vehicle_threads := ?vs[k := v']\<rparr>"
    by (rule exec_Vehicle_Some)
  let ?v = "?vs ! k"
  from inv have np: "NUM_PUMPS s = n" and len: "length ?ps = n"
    and pm: "pumps s = map (\<lambda>i. int i + 1) [0..<n]"
    and ok: "\<And>j. j < length ?vs \<Longrightarrow> vehicle_ok n ?ps (?vs ! j)"
    and dis: "\<And>i j. i < length ?vs \<Longrightarrow> j < length ?vs \<Longrightarrow> i \<noteq> j \<Longrightarrow> claimed (?vs ! i) \<Longrightarrow>
            claimed (?vs ! j) \<Longrightarrow> pump_id (?vs ! i) \<noteq> pump_id (?vs ! j)"
    and fr: "\<And>i. i < n \<Longrightarrow> is_free (?ps ! i) \<Longrightarrow> ?ps ! i = fmt_free (int i + 1)"
    by (simp_all add: registry_inv_def)
  from vstep_frame[OF st] np pm s'
  have c': "NUM_PUMPS s' = n" "pumps s' = map (\<lambda>i. int i + 1) [0..<n]"
    "pump_status s' = pump_status t" "vehicle_threads s' = ?vs[k := v']"
    by simp_all
  have nth: "\<And>j. j < length ?vs \<Longrightarrow> ?vs[k := v'] ! j = (if j = k then v' else ?vs ! j)"
    using k by (simp add: nth_list_update)
  have goal: "registry_inv n s'"
    if ps: "length (pump_status t) = n"
    and ok': "\<And>j. j < length ?vs \<Longrightarrow> vehicle_ok n (pump_status t) (if j = k then v' else ?vs ! j)"
    and dis': "\<And>j. j < length ?vs \<Longrightarrow> j \<noteq> k \<Longrightarrow> claimed v' \<Longrightarrow> claimed (?vs ! j) \<Longrightarrow>
               pump_id v' \<noteq> pump_id (?vs ! j)"
    and fr': "\<And>i. i < n \<Longrightarrow> is_free (pump_status t ! i) \<Longrightarrow> pump_status t ! i = fmt_free (int i + 1)"
  proof -
    have d: "pump_id (?vs[k := v'] ! i) \<noteq> pump_id (?vs[k := v'] ! j)"
      if "i < length ?vs" "j < length ?vs" "i \<noteq> j"
        "claimed (?vs[k := v'] ! i)" "claimed (?vs[k := v'] ! j)" for i j
    proof (cases "i = k")
      case True
      with that nth[of i] nth[of j] dis'[of j] show ?thesis by simp
    next
      case ik: False
      show ?thesis
      proof (cases "j = k")
        case True
        with that ik nth[of i] nth[of j] dis'[of i] show ?thesis by (simp add: eq_commute)
      next
        case False
        with that ik nth[of i] nth[of j] dis[of i j] show ?thesis by simp
      qed
    qed
    have o: "vehicle_ok n (pump_status t) (?vs[k := v'] ! j)" if "j < length ?vs" for j
      using ok'[OF that] nth[OF that] by simp
    show ?thesis
      unfolding registry_inv_def
      using c' ps o d fr' by simp
  qed
  from vstep_registry[OF st np len pm ok[OF k]]
  consider
    (quiet) "pump_status t = ?ps" "vehicle_ok n ?ps v'" "claimed v' \<longrightarrow> claimed ?v \<and> pump_id v' = pump_id ?v"
  | (claim) i where "i < n" "is_free (?ps ! i)" "\<not> claimed ?v"
      "pump_status t = ?ps[i := fmt_occupied (int i + 1) (vid ?v)]"
      "v' = ?v\<lparr>pc := VSelect, pump_id := int i + 1\<rparr>"
  | (release) "claimed ?v" "pc ?v = VReleaseStatus"
      "pump_status t = ?ps[entry_of ?v := fmt_released (pump_id ?v) (vid ?v)]"
      "v' = ?v\<lparr>pc := VReleaseSem\<rparr>"
    by blast
  then show ?thesis
  proof cases
    case quiet
    show ?thesis
    proof (rule goal)
      show "length (pump_status t) = n" using quiet len by simp
      show "vehicle_ok n (pump_status t) (if j = k then v' else ?vs ! j)" if "j < length ?vs" for j
        using quiet ok[OF that] by simp
      show "pump_id v' \<noteq> pump_id (?vs ! j)"
        if "j < length ?vs" "j \<noteq> k" "claimed v'" "claimed (?vs ! j)" for j
        using quiet that dis[OF k that(1)] by auto
      show "pump_status t ! i = fmt_free (int i + 1)" if "i < n" "is_free (pump_status t ! i)" for i
        using quiet that fr by simp
    qed
  next
    case claim
    have away: "entry_of w \<noteq> i"
      if w: "vehicle_ok n ?ps w" and h: "claimed w \<or> (after_release (pc w) \<and> pump_id w \<noteq> - 1)" for w
    proof
      assume e: "entry_of w = i"
      from w h have "?ps ! entry_of w = fmt_occupied (pump_id w) (vid w)
          \<or> ?ps ! entry_of w = fmt_released (pump_id w) (vid w)"
        by (auto simp: vehicle_ok_def)
      with e claim(2) show False by (auto simp: not_free_occupied not_free_released)
    qed
    show ?thesis
    proof (rule goal)
      show "length (pump_status t) = n" using claim len by simp
      show "vehicle_ok n (pump_status t) (if j = k then v' else ?vs ! j)" if j: "j < length ?vs" for j
      proof (cases "j = k")
        case True
        from ok[OF k] claim len have "vehicle_ok n (pump_status t) v'"
          by (simp add: vehicle_ok_def claimed_def entry_of_def)
        with True show ?thesis by simp
      next
        case False
        have "vehicle_ok n (?ps[i := fmt_occupied (int i + 1) (vid ?v)]) (?vs ! j)"
          using ok[OF j] not_free_occupied claim(1) len away[OF ok[OF j]]
          by (intro vehicle_ok_update) simp_all
        with False claim show ?thesis by simp
      qed
      show "pump_id v' \<noteq> pump_id (?vs ! j)"
        if "j < length ?vs" "j \<noteq> k" "claimed v'" "claimed (?vs ! j)" for j
      proof
        assume "pump_id v' = pump_id (?vs ! j)"
        with claim have "entry_of (?vs ! j) = i" by (simp add: entry_of_def)
        with away[OF ok[OF that(1)]] that(4) show False by simp
      qed
      show "pump_status t ! i' = fmt_free (int i' + 1)" if "i' < n" "is_free (pump_status t ! i')" for i'
      proof (cases "i' = i")
        case True
        with claim that len show ?thesis by (simp add: not_free_occupied)
      next
        case False
        with claim that fr[of i'] show ?thesis by simp
      qed
    qed
  next
    case release
    from ok[OF k] release(1) have pid: "1 \<le> pump_id ?v" "pump_id ?v \<le> int n" "pump_id ?v \<noteq> - 1"
      and mine: "?ps ! entry_of ?v = fmt_occupied (pump_id ?v) (vid ?v)"
      by (auto simp: vehicle_ok_def)
    from pid len have e: "entry_of ?v < length ?ps" by (simp add: entry_of_def)
    show ?thesis
    proof (rule goal)
      show "length (pump_status t) = n" using release len by simp
      show "vehicle_ok n (pump_status t) (if j = k then v' else ?vs ! j)" if j: "j < length ?vs" for j
      proof (cases "j = k")
        case True
        from ok[OF k] release e pid have "vehicle_ok n (pump_status t) v'"
          by (simp add: vehicle_ok_def claimed_def entry_of_pc)
        with True show ?thesis by simp
      next
        case False
        let ?w = "?vs ! j"
        have "entry_of ?w \<noteq> entry_of ?v"
          if h: "claimed ?w \<or> (after_release (pc ?w) \<and> pump_id ?w \<noteq> - 1)"
        proof
          assume eq: "entry_of ?w = entry_of ?v"
          from h show False
          proof
            assume cw: "claimed ?w"
            with ok[OF j] have "1 \<le> pump_id ?w" by (auto simp: vehicle_ok_def)
            from entry_of_eq[OF this pid(1) eq] dis[OF j k False cw release(1)]
            show False by simp
          next
            assume "after_release (pc ?w) \<and> pump_id ?w \<noteq> - 1"
            with ok[OF j] have "?ps ! entry_of ?w = fmt_released (pump_id ?w) (vid ?w)"
              by (simp add: vehicle_ok_def)
            with eq mine have "fmt_released (pump_id ?w) (vid ?w) = fmt_occupied (pump_id ?v) (vid ?v)"
              by simp
            with released_neq_occupied show False by blast
          qed
        qed
        then have "vehicle_ok n (?ps[entry_of ?v := fmt_released (pump_id ?v) (vid ?v)]) ?w"
          using ok[OF j] not_free_released e by (intro vehicle_ok_update) simp_all
        with False release show ?thesis by simp
      qed
      show "pump_id v' \<noteq> pump_id (?vs ! j)"
        if "j < length ?vs" "j \<noteq> k" "claimed v'" "claimed (?vs ! j)" for j
        using release that by (simp add: claimed_def)
      show "pump_status t ! i' = fmt_free (int i' + 1)" if "i' < n" "is_free (pump_status t ! i')" for i'
      proof (cases "i' = entry_of ?v")
        case True
        with release that e show ?thesis by (simp add: not_free_released)
      next
        case False
        with release that fr[of i'] show ?thesis by simp
      qed
    qed
  qed
qed

lemma registry_inv_exec:
  assumes "registry_inv n s" and "exec a s = Some s'"
  shows "registry_inv n s'"
proof (cases a)
  case Manager
  with assms registry_inv_manager[of n s s'] show ?thesis by simp
next
  case (Vehicle k)
  with assms registry_inv_vehicle[of n s k s'] show ?thesis by simp
next
  case StopRequest
  with assms(2) have "s' = s\<lparr>running := False\<rparr>" by simp
  with assms(1) show ?thesis by (simp add: registry_inv_def)
qed

lemma reachable_registry_inv: "reachable n m s \<Longrightarrow> registry_inv n s"
proof (induction rule: reachable.induct)
  case start
  show ?case by (rule registry_inv_init)
next
  case (step s a s')
  from registry_inv_exec[OF step.IH step.hyps(2)] show ?case .
qed

section \<open>Runs: the cashier, the pump slots, the arrival ids\<close>

lemma run_schedule_steps: "run_schedule as s = Some s' \<Longrightarrow> steps s s'"
proof (induction as arbitrary: s s' rule: rev_induct)
  case Nil
  then show ?case by (simp add: steps.stay)
next
  case (snoc a as)
  have app: "run_schedule (xs @ [a]) s = (case run_schedule xs s of None \<Rightarrow> None | Some t \<Rightarrow> exec a t)"
    for xs s
    by (induction xs arbitrary: s) (auto split: option.splits)
  from snoc.prems app[of as s] obtain t where t: "run_schedule as s = Some t" and e: "exec a t = Some s'"
    by (auto split: option.splits)
  from snoc.IH[OF t] e show ?case by (rule steps.after)
qed

lemma steps_reachable: "steps s s' \<Longrightarrow> reachable n m s \<Longrightarrow> reachable n m s'"
  by (induction rule: steps.induct) (auto intro: reachable.step)

lemma two_vehicle_run_Some:
  "run_schedule (two_vehicle_schedule k j) (init_station 1 2) \<noteq> None \<Longrightarrow>
   run_schedule (two_vehicle_schedule k j) (init_station 1 2) = Some (two_vehicle_run k j)"
  by (auto simp: two_vehicle_run_def)

lemma two_vehicle_run_reachable:
  "run_schedule (two_vehicle_schedule k j) (init_station 1 2) \<noteq> None \<Longrightarrow>
   reachable 1 2 (two_vehicle_run k j)"
  using run_schedule_from_start two_vehicle_run_Some by blast

text \<open>
  Claim C3. At every moment of every run at most one vehicle thread is inside the block
  \<open>with CASHIER_LOCK\<close> of \<open>Cashier.process_payment\<close>.
\<close>

theorem cashier_mutual_exclusion:
  assumes "reachable n m s"
  shows "paying_count s \<le> 1"
  using reachable_paying[OF assms] by (simp split: if_splits)

theorem cashier_mutual_exclusion_witness:
  "reachable 1 2 (two_vehicle_run 11 0) \<and> paying_count (two_vehicle_run 11 0) = 1
   \<and> paying_count (two_vehicle_run 11 0) \<le> 1"
proof -
  have "run_schedule (two_vehicle_schedule 11 0) (init_station 1 2) \<noteq> None" by code_simp
  then have r: "reachable 1 2 (two_vehicle_run 11 0)" by (rule two_vehicle_run_reachable)
  have "paying_count (two_vehicle_run 11 0) = 1" by code_simp
  with r cashier_mutual_exclusion[OF r] show ?thesis by simp
qed

text \<open>
  Claim C4. At every moment of every run with \<open>n\<close> pumps, the vehicle threads that hold a
  slot of PUMPS_SEMAPHORE and the free slots add up to \<open>n\<close>; so at most \<open>n\<close> threads hold
  a slot, and at most \<open>n\<close> are inside \<open>Pump.tank\<close>.
\<close>

theorem pump_slots_bounded:
  assumes "reachable n m s"
  shows "sem s + holders s = n \<and> holders s \<le> n \<and> fueling_count s \<le> n"
  using reachable_sem_holders[OF assms] fueling_le_holders[of s] by simp

theorem pump_slots_bounded_witness:
  "reachable 1 2 (two_vehicle_run 5 1) \<and> fueling_count (two_vehicle_run 5 1) = 1
   \<and> sem (two_vehicle_run 5 1) + holders (two_vehicle_run 5 1) = 1
   \<and> holders (two_vehicle_run 5 1) \<le> 1 \<and> fueling_count (two_vehicle_run 5 1) \<le> 1"
proof -
  have "run_schedule (two_vehicle_schedule 5 1) (init_station 1 2) \<noteq> None" by code_simp
  then have r: "reachable 1 2 (two_vehicle_run 5 1)" by (rule two_vehicle_run_reachable)
  have "fueling_count (two_vehicle_run 5 1) = 1" by code_simp
  with r pump_slots_bounded[OF r] show ?thesis by simp
qed

lemma exec_ids_grow:
  assumes "exec a s = Some s'"
  shows "length (vehicle_threads s) \<le> length (vehicle_threads s')"
proof (cases a)
  case Manager
  with assms show ?thesis by (cases "mpc s") (auto simp: emit_def split: if_splits)
next
  case (Vehicle k)
  with assms have "exec (Vehicle k) s = Some s'" by simp
  from vstep_ids[OF this] have "length (spawned_ids s') = length (spawned_ids s)" by simp
  then show ?thesis by (simp add: spawned_ids_def)
next
  case StopRequest
  with assms show ?thesis by auto
qed

lemma steps_ids_grow: "steps s s' \<Longrightarrow> length (vehicle_threads s) \<le> length (vehicle_threads s')"
  by (induction rule: steps.induct) (auto dest: exec_ids_grow)

lemma reachable_ids_upto:
  assumes "reachable n m s"
  shows "spawned_ids s = [1..int (length (vehicle_threads s))]"
proof -
  from reachable_ids[OF assms] obtain j where j: "spawned_ids s = [1..j]" and "0 \<le> j"
    by (cases "mpc s = MSpawn") auto
  have "length (spawned_ids s) = length (vehicle_threads s)" by (simp add: spawned_ids_def)
  with j \<open>0 \<le> j\<close> have "int (length (vehicle_threads s)) = j" by simp
  with j show ?thesis by simp
qed

text \<open>
  Claim C5. At every moment of every run the arrival ids of the vehicles spawned so far
  are, in the order of spawning, 1, 2, 3, ... with one id per vehicle: they are distinct
  and strictly increasing; and the ids given out earlier stay as they are when the run
  goes on.
\<close>

theorem arrival_ids:
  assumes "reachable n m s" and "steps s s'"
  shows "spawned_ids s' = [1..int (length (vehicle_threads s'))]
       \<and> distinct (spawned_ids s') \<and> sorted_wrt (<) (spawned_ids s')
       \<and> take (length (vehicle_threads s)) (spawned_ids s') = spawned_ids s"
proof -
  let ?a = "int (length (vehicle_threads s))" and ?b = "int (length (vehicle_threads s'))"
  from steps_reachable[OF assms(2,1)] have r': "reachable n m s'" .
  have s: "spawned_ids s = [1..?a]" using reachable_ids_upto[OF assms(1)] .
  have s': "spawned_ids s' = [1..?b]" using reachable_ids_upto[OF r'] .
  from steps_ids_grow[OF assms(2)] have ab: "?a \<le> ?b" by simp
  have "take (length (vehicle_threads s)) [1..?b] = [1..?a]"
  proof (cases "length (vehicle_threads s) = 0")
    case True
    then show ?thesis by simp
  next
    case False
    then have "0 < length (vehicle_threads s)" by (rule neq0_conv[THEN iffD1])
    then have "1 \<le> ?a" by linarith
    from upto_split2[OF this ab] have "[1..?b] = [1..?a] @ [?a + 1..?b]" .
    then show ?thesis by simp
  qed
  with s s' show ?thesis by (simp add: sorted_wrt_upto)
qed

theorem arrival_ids_witness:
  "reachable 1 2 (two_vehicle_run 0 0) \<and> steps (two_vehicle_run 0 0) (two_vehicle_run 3 1)
   \<and> spawned_ids (two_vehicle_run 3 1) = [1, 2]
   \<and> spawned_ids (two_vehicle_run 3 1) = [1..int (length (vehicle_threads (two_vehicle_run 3 1)))]
   \<and> distinct (spawned_ids (two_vehicle_run 3 1)) \<and> sorted_wrt (<) (spawned_ids (two_vehicle_run 3 1))
   \<and> take (length (vehicle_threads (two_vehicle_run 0 0))) (spawned_ids (two_vehicle_run 3 1))
       = spawned_ids (two_vehicle_run 0 0)"
proof -
  have "run_schedule (two_vehicle_schedule 0 0) (init_station 1 2) \<noteq> None" by code_simp
  then have r: "reachable 1 2 (two_vehicle_run 0 0)"
    and e: "run_schedule (two_vehicle_schedule 0 0) (init_station 1 2) = Some (two_vehicle_run 0 0)"
    by (rule two_vehicle_run_reachable, rule two_vehicle_run_Some)
  have "run_schedule (replicate 3 (Vehicle 0) @ replicate 1 (Vehicle 1)) (two_vehicle_run 0 0)
      = Some (two_vehicle_run 3 1)"
    by code_simp
  then have st: "steps (two_vehicle_run 0 0) (two_vehicle_run 3 1)" by (rule run_schedule_steps)
  have ids: "spawned_ids (two_vehicle_run 3 1) = [1, 2]" by code_simp
  note th = arrival_ids[OF r st]
  from r st ids th show ?thesis by blast
qed

section \<open>Runs: the registry entries over time\<close>

lemma mstep_frame:
  "mstep p s = Some s' \<Longrightarrow>
     pump_status s' = pump_status s \<and> pumps s' = pumps s \<and> NUM_PUMPS s' = NUM_PUMPS s \<and>
     running s' = running s \<and>
     (\<exists>ys. vehicle_threads s' = vehicle_threads s @ ys) \<and> (\<exists>es. printed s' = printed s @ es)"
  by (cases p) (auto simp: emit_def split: if_splits)





section \<open>Runs: the vehicle that finds no pump\<close>

lemma vstep_printed:
  "vstep p v s = Some (v', t) \<Longrightarrow>
   printed t = printed s \<or> (\<exists>e. printed t = printed s @ [e] \<and> e \<noteq> SimEnd)"
  by (cases p)
     (auto simp: emit_def scan_iteration_def split: if_splits option.splits sum.splits prod.splits)

lemma vstep_not_terminated: "vstep (pc v) v s = Some r \<Longrightarrow> \<not> terminated v"
  by (cases "pc v") (auto simp: terminated_def)

lemma error_path_exec:
  assumes ep: "error_path k x s" and ex: "exec a s = Some s'"
  shows "error_path k x s'"
proof (cases a)
  case Manager
  with ex have "mstep (mpc s) s = Some s'" by simp
  from mstep_frame[OF this] obtain ys es where "pumps s' = pumps s"
    "vehicle_threads s' = vehicle_threads s @ ys" "printed s' = printed s @ es" by blast
  with ep show ?thesis by (auto simp: error_path_def nth_append)
next
  case (Vehicle j)
  with ex have "exec (Vehicle j) s = Some s'" by simp
  then obtain v' t where j: "j < length (vehicle_threads s)"
    and st: "vstep (pc (vehicle_threads s ! j)) (vehicle_threads s ! j) s = Some (v', t)"
    and s': "s' = t\<lparr>vehicle_threads := (vehicle_threads s)[j := v']\<rparr>"
    by (rule exec_Vehicle_Some)
  from vstep_frame[OF st] have fr: "pumps t = pumps s" "vid v' = vid (vehicle_threads s ! j)" by simp_all
  show ?thesis
  proof (cases "j = k")
    case False
    from vstep_printed[OF st] have "set (printed s) \<subseteq> set (printed t)" by auto
    with ep s' fr False show ?thesis by (auto simp: error_path_def)
  next
    case True
    let ?v = "vehicle_threads s ! k"
    from ep have pcs: "pc ?v = VSelect \<or> pc ?v = VError \<or> pc ?v = VErrorRelease \<or> pc ?v = VDone"
      and pid: "pump_id ?v = - 1" and nf: "find (\<lambda>p. p = - 1) (pumps s) = None"
      and kk: "k < length (vehicle_threads s)" and x: "vid ?v = x"
      by (auto simp: error_path_def)
    from pcs show ?thesis
    proof (elim disjE)
      assume "pc ?v = VSelect"
      with st True pid nf have "v' = ?v\<lparr>pc := VError\<rparr>" "t = s" by auto
      with s' True ep show ?thesis by (simp add: error_path_def)
    next
      assume "pc ?v = VError"
      with st True have "v' = ?v\<lparr>pc := VErrorRelease\<rparr>" "t = emit (ErrorNoPump (vid ?v)) s" by auto
      with s' True ep show ?thesis by (simp add: error_path_def emit_def)
    next
      assume p: "pc ?v = VErrorRelease"
      with st True have "v' = ?v\<lparr>pc := VDone\<rparr>" "t = s\<lparr>sem := sem s + 1\<rparr>" by auto
      with s' True ep p show ?thesis by (simp add: error_path_def)
    next
      assume "pc ?v = VDone"
      with st True show ?thesis by simp
    qed
  qed
next
  case StopRequest
  with ex ep show ?thesis by (auto simp: error_path_def)
qed

lemma error_path_steps: "steps s s' \<Longrightarrow> error_path k x s \<Longrightarrow> error_path k x s'"
  by (induction rule: steps.induct) (auto intro: error_path_exec)

lemma error_path_start:
  assumes "reachable n m s" and "k < length (vehicle_threads s)"
    and "pc (vehicle_threads s ! k) = VSelect" and "pump_id (vehicle_threads s ! k) = - 1"
  shows "error_path k (vid (vehicle_threads s ! k)) s"
proof -
  from reachable_registry_inv[OF assms(1)] have "pumps s = map (\<lambda>i. int i + 1) [0..<n]"
    by (simp add: registry_inv_def)
  then have "find (\<lambda>p. p = - 1) (pumps s) = None" by (simp add: find_pumps_None)
  with assms show ?thesis by (simp add: error_path_def)
qed

lemma error_branch_run:
  assumes k: "k < length (vehicle_threads s)"
    and pc: "pc (vehicle_threads s ! k) = VSelect"
    and nf: "find (\<lambda>p. p = pump_id (vehicle_threads s ! k)) (pumps s) = None"
  shows "run_schedule [Vehicle k, Vehicle k, Vehicle k] s
       = Some (s\<lparr>sem := sem s + 1,
                 printed := printed s @ [ErrorNoPump (vid (vehicle_threads s ! k))],
                 vehicle_threads := (vehicle_threads s)[k := (vehicle_threads s ! k)\<lparr>pc := VDone\<rparr>]\<rparr>)"
  using assms by (simp add: emit_def)

text \<open>
  Claim C7. When a vehicle thread that holds a slot of the semaphore reaches the test of
  line 84 without a pump (\<open>pump_id = -1\<close>), its next three steps print the error line,
  give the slot back and end the thread, and change nothing else: no other thread, not the
  manager, not the registry, not the cashier. However the other threads move in between,
  the thread is never inside \<open>Pump.tank\<close> or the cashier's block afterwards, it can always
  take its next step until it has ended, and when it has ended the error line is printed.
\<close>

theorem failed_claim_aborts_vehicle:
  assumes "reachable n m s" and "k < length (vehicle_threads s)"
    and "pc (vehicle_threads s ! k) = VSelect" and "pump_id (vehicle_threads s ! k) = - 1"
  shows "run_schedule [Vehicle k, Vehicle k, Vehicle k] s
           = Some (s\<lparr>sem := sem s + 1,
                     printed := printed s @ [ErrorNoPump (vid (vehicle_threads s ! k))],
                     vehicle_threads :=
                       (vehicle_threads s)[k := (vehicle_threads s ! k)\<lparr>pc := VDone\<rparr>]\<rparr>)
       \<and> (\<forall>s'. steps s s' \<longrightarrow>
             \<not> fueling (pc (vehicle_threads s' ! k)) \<and> \<not> paying (pc (vehicle_threads s' ! k))
             \<and> pc (vehicle_threads s' ! k) \<noteq> VCrashed
             \<and> (pc (vehicle_threads s' ! k) \<noteq> VDone \<longrightarrow> exec (Vehicle k) s' \<noteq> None)
             \<and> (pc (vehicle_threads s' ! k) = VDone \<longrightarrow>
                  ErrorNoPump (vid (vehicle_threads s ! k)) \<in> set (printed s')))"
proof -
  let ?x = "vid (vehicle_threads s ! k)"
  from error_path_start[OF assms] have ep: "error_path k ?x s" .
  then have "find (\<lambda>p. p = pump_id (vehicle_threads s ! k)) (pumps s) = None"
    by (simp add: error_path_def)
  from error_branch_run[OF assms(2,3) this] have one: "run_schedule [Vehicle k, Vehicle k, Vehicle k] s
           = Some (s\<lparr>sem := sem s + 1,
                     printed := printed s @ [ErrorNoPump (vid (vehicle_threads s ! k))],
                     vehicle_threads :=
                       (vehicle_threads s)[k := (vehicle_threads s ! k)\<lparr>pc := VDone\<rparr>]\<rparr>)" .
  have two: "\<not> fueling (pc (vehicle_threads s' ! k)) \<and> \<not> paying (pc (vehicle_threads s' ! k))
             \<and> pc (vehicle_threads s' ! k) \<noteq> VCrashed
             \<and> (pc (vehicle_threads s' ! k) \<noteq> VDone \<longrightarrow> exec (Vehicle k) s' \<noteq> None)
             \<and> (pc (vehicle_threads s' ! k) = VDone \<longrightarrow> ErrorNoPump ?x \<in> set (printed s'))"
    if "steps s s'" for s'
  proof -
    from error_path_steps[OF that ep] have e: "error_path k ?x s'" .
    then show ?thesis by (auto simp: error_path_def split: option.splits)
  qed
  from one two show ?thesis by blast
qed

theorem failed_claim_aborts_vehicle_witness:
  "reachable 1 2 (two_vehicle_run 9 4)
   \<and> pc (vehicle_threads (two_vehicle_run 9 4) ! 1) = VSelect
   \<and> pump_id (vehicle_threads (two_vehicle_run 9 4) ! 1) = - 1
   \<and> steps (two_vehicle_run 9 4) (two_vehicle_run 9 7)
   \<and> run_schedule [Vehicle 1, Vehicle 1, Vehicle 1] (two_vehicle_run 9 4)
       = Some ((two_vehicle_run 9 4)\<lparr>sem := sem (two_vehicle_run 9 4) + 1,
            printed := printed (two_vehicle_run 9 4)
               @ [ErrorNoPump (vid (vehicle_threads (two_vehicle_run 9 4) ! 1))],
            vehicle_threads := (vehicle_threads (two_vehicle_run 9 4))
               [1 := (vehicle_threads (two_vehicle_run 9 4) ! 1)\<lparr>pc := VDone\<rparr>]\<rparr>)
   \<and> pc (vehicle_threads (two_vehicle_run 9 7) ! 1) = VDone
   \<and> ErrorNoPump (vid (vehicle_threads (two_vehicle_run 9 4) ! 1)) \<in> set (printed (two_vehicle_run 9 7))"
proof -
  have "run_schedule (two_vehicle_schedule 9 4) (init_station 1 2) \<noteq> None" by code_simp
  then have r: "reachable 1 2 (two_vehicle_run 9 4)" by (rule two_vehicle_run_reachable)
  have k: "1 < length (vehicle_threads (two_vehicle_run 9 4))" by code_simp
  have p: "pc (vehicle_threads (two_vehicle_run 9 4) ! 1) = VSelect" by code_simp
  have i: "pump_id (vehicle_threads (two_vehicle_run 9 4) ! 1) = - 1" by code_simp
  have "run_schedule (replicate 3 (Vehicle 1)) (two_vehicle_run 9 4)
      = Some (two_vehicle_run 9 7)"
    by code_simp
  then have st: "steps (two_vehicle_run 9 4) (two_vehicle_run 9 7)" by (rule run_schedule_steps)
  have d: "pc (vehicle_threads (two_vehicle_run 9 7) ! 1) = VDone" by code_simp
  note th = failed_claim_aborts_vehicle[OF r k p i]
  from th have a: "run_schedule [Vehicle 1, Vehicle 1, Vehicle 1] (two_vehicle_run 9 4)
       = Some ((two_vehicle_run 9 4)\<lparr>sem := sem (two_vehicle_run 9 4) + 1,
            printed := printed (two_vehicle_run 9 4)
               @ [ErrorNoPump (vid (vehicle_threads (two_vehicle_run 9 4) ! 1))],
            vehicle_threads := (vehicle_threads (two_vehicle_run 9 4))
               [1 := (vehicle_threads (two_vehicle_run 9 4) ! 1)\<lparr>pc := VDone\<rparr>]\<rparr>)"
    by (rule conjunct1)
  from th st d have b: "ErrorNoPump (vid (vehicle_threads (two_vehicle_run 9 4) ! 1))
      \<in> set (printed (two_vehicle_run 9 7))" by blast
  from r p i st a d b show ?thesis by blast
qed

section \<open>Runs: stopping and joining\<close>

lemma vstep_running:
  "vstep p v (s\<lparr>running := b\<rparr>)
     = map_option (\<lambda>(v', t). (v', t\<lparr>running := b\<rparr>)) (vstep p v s)"
  by (cases p)
     (auto simp: emit_def split: if_splits option.splits sum.splits prod.splits)

lemma exec_vehicle_running:
  "exec (Vehicle k) (s\<lparr>running := b\<rparr>) = map_option (\<lambda>t. t\<lparr>running := b\<rparr>) (exec (Vehicle k) s)"
  by (auto simp: vstep_running split: option.splits)

lemma no_spawn_exec:
  assumes "\<not> running s" and "\<not> spawning (mpc s)" and ex: "exec a s = Some s'"
  shows "\<not> running s' \<and> \<not> spawning (mpc s') \<and> spawned_ids s' = spawned_ids s"
proof (cases a)
  case Manager
  with assms show ?thesis
    by (cases "mpc s") (auto simp: emit_def spawned_ids_def split: if_splits)
next
  case (Vehicle k)
  with ex have e: "exec (Vehicle k) s = Some s'" by simp
  then obtain v' t where "vstep (pc (vehicle_threads s ! k)) (vehicle_threads s ! k) s = Some (v', t)"
    and "s' = t\<lparr>vehicle_threads := (vehicle_threads s)[k := v']\<rparr>"
    by (rule exec_Vehicle_Some)
  with vstep_frame[of "pc (vehicle_threads s ! k)" "vehicle_threads s ! k" s v' t]
  have "running s' = running s" by simp
  with vstep_ids[OF e] assms show ?thesis by simp
next
  case StopRequest
  with assms show ?thesis by (auto simp: spawned_ids_def)
qed

lemma no_spawn_steps:
  "steps s s' \<Longrightarrow> \<not> running s \<Longrightarrow> \<not> spawning (mpc s) \<Longrightarrow>
   \<not> running s' \<and> \<not> spawning (mpc s') \<and> spawned_ids s' = spawned_ids s"
proof (induction rule: steps.induct)
  case (stay s)
  then show ?case by simp
next
  case (after s s' a s'')
  from after.IH[OF after.prems] no_spawn_exec[OF _ _ after.hyps(2)] show ?case by simp
qed

lemma join_inv_manager:
  assumes inv: "join_inv s" and ex: "mstep (mpc s) s = Some s'"
  shows "join_inv s'"
proof (cases "mpc s")
  case (MJoin j)
  show ?thesis
  proof (cases "j < length (vehicle_threads s)")
    case True
    with ex MJoin have t: "terminated (vehicle_threads s ! j)" and s': "s' = s\<lparr>mpc := MJoin (Suc j)\<rparr>"
      by (auto split: if_splits)
    from inv MJoin have "\<forall>i<j. terminated (vehicle_threads s ! i)" "SimEnd \<notin> set (printed s)"
      by (auto simp: join_inv_def)
    with t True s' show ?thesis by (auto simp: join_inv_def less_Suc_eq)
  next
    case False
    with ex MJoin have s': "s' = s\<lparr>mpc := MEndPrint\<rparr>" by simp
    from inv MJoin False have "j = length (vehicle_threads s)"
      "\<forall>i<j. terminated (vehicle_threads s ! i)" "SimEnd \<notin> set (printed s)"
      by (auto simp: join_inv_def)
    with s' show ?thesis by (auto simp: join_inv_def list_all_length)
  qed
qed (use assms in \<open>auto simp: join_inv_def emit_def split: if_splits\<close>)

lemma join_inv_vehicle:
  assumes inv: "join_inv s" and ex: "exec (Vehicle k) s = Some s'"
  shows "join_inv s'"
proof -
  from ex obtain v' t where k: "k < length (vehicle_threads s)"
    and st: "vstep (pc (vehicle_threads s ! k)) (vehicle_threads s ! k) s = Some (v', t)"
    and s': "s' = t\<lparr>vehicle_threads := (vehicle_threads s)[k := v']\<rparr>"
    by (rule exec_Vehicle_Some)
  from vstep_not_terminated[OF st] have nt: "\<not> terminated (vehicle_threads s ! k)" .
  from vstep_frame[OF st] have m: "mpc t = mpc s" by simp
  from vstep_printed[OF st] have pr: "SimEnd \<in> set (printed t) \<longleftrightarrow> SimEnd \<in> set (printed s)"
    by auto
  have a: "\<forall>j. mpc s' = MJoin j \<longrightarrow>
          j \<le> length (vehicle_threads s') \<and> (\<forall>i<j. terminated (vehicle_threads s' ! i))"
  proof (intro allI impI)
    fix j assume "mpc s' = MJoin j"
    with s' m inv have j: "j \<le> length (vehicle_threads s)"
      and al: "\<forall>i<j. terminated (vehicle_threads s ! i)"
      by (auto simp: join_inv_def)
    have "terminated (vehicle_threads s' ! i)" if "i < j" for i
    proof -
      from al that have ti: "terminated (vehicle_threads s ! i)" by simp
      with nt have "i \<noteq> k" by auto
      with s' ti show ?thesis by simp
    qed
    with j s' show "j \<le> length (vehicle_threads s') \<and> (\<forall>i<j. terminated (vehicle_threads s' ! i))"
      by simp
  qed
  have b: "mpc s' = MEndPrint \<or> mpc s' = MDone \<longrightarrow> list_all terminated (vehicle_threads s')"
  proof
    assume "mpc s' = MEndPrint \<or> mpc s' = MDone"
    with s' m inv have "list_all terminated (vehicle_threads s)" by (auto simp: join_inv_def)
    with k nt show "list_all terminated (vehicle_threads s')" by (simp add: list_all_length)
  qed
  have c: "SimEnd \<in> set (printed s') \<longrightarrow> mpc s' = MDone"
    using inv s' m pr by (auto simp: join_inv_def)
  from a b c show ?thesis unfolding join_inv_def by blast
qed

lemma reachable_join_inv: "reachable n m s \<Longrightarrow> join_inv s"
proof (induction rule: reachable.induct)
  case start
  show ?case by (simp add: join_inv_def init_station_def)
next
  case (step s a s')
  show ?case
  proof (cases a)
    case Manager
    with step.hyps(2) join_inv_manager[OF step.IH, of s'] show ?thesis by simp
  next
    case (Vehicle k)
    with step.hyps(2) join_inv_vehicle[OF step.IH, of k s'] show ?thesis by simp
  next
    case StopRequest
    with step.hyps(2) step.IH show ?thesis by (auto simp: join_inv_def)
  qed
qed

text \<open>
  Claim C9. Once \<open>running\<close> is false and the manager is not in the middle of starting a
  vehicle (it stands at the loop test of line 117, before it, or after the loop), no
  further vehicle is ever spawned. A call of \<open>stop\<close> changes only the flag, and every
  vehicle thread takes exactly the steps it would take without it. The manager's last line
  is printed only when every spawned vehicle thread has ended.
\<close>

theorem cooperative_stop:
  assumes "reachable n m s"
  shows "(\<not> running s \<and> \<not> spawning (mpc s) \<longrightarrow>
            (\<forall>s'. steps s s' \<longrightarrow> spawned_ids s' = spawned_ids s))
       \<and> exec StopRequest s = Some (s\<lparr>running := False\<rparr>)
       \<and> (\<forall>k. exec (Vehicle k) (s\<lparr>running := False\<rparr>)
                = map_option (\<lambda>t. t\<lparr>running := False\<rparr>) (exec (Vehicle k) s))
       \<and> (SimEnd \<in> set (printed s) \<longrightarrow> list_all terminated (vehicle_threads s))"
proof -
  have a: "spawned_ids s' = spawned_ids s" if "\<not> running s \<and> \<not> spawning (mpc s)" "steps s s'" for s'
    using no_spawn_steps[OF that(2)] that(1) by simp
  from reachable_join_inv[OF assms]
  have b: "SimEnd \<in> set (printed s) \<longrightarrow> list_all terminated (vehicle_threads s)"
    by (auto simp: join_inv_def)
  from a b exec_vehicle_running[where s = s and b = False] show ?thesis by auto
qed

theorem cooperative_stop_witness:
  "reachable 3 10 stopped_station \<and> \<not> running stopped_station \<and> \<not> spawning (mpc stopped_station)
   \<and> steps stopped_station drained_station
   \<and> spawned_ids stopped_station = [1]
   \<and> spawned_ids drained_station = spawned_ids stopped_station
   \<and> reachable 3 10 drained_station \<and> SimEnd \<in> set (printed drained_station)
   \<and> list_all terminated (vehicle_threads drained_station)"
proof -
  have "run_schedule stop_after_first (init_station 3 10) \<noteq> None" by code_simp
  then have "run_schedule stop_after_first (init_station 3 10) = Some stopped_station"
    by (auto simp: stopped_station_def)
  then have r: "reachable 3 10 stopped_station" by (rule run_schedule_from_start)
  have "run_schedule drain stopped_station \<noteq> None" by code_simp
  then have "run_schedule drain stopped_station = Some drained_station"
    by (auto simp: drained_station_def)
  then have st: "steps stopped_station drained_station" by (rule run_schedule_steps)
  from steps_reachable[OF st r] have r': "reachable 3 10 drained_station" .
  have nr: "\<not> running stopped_station" by code_simp
  have ns: "\<not> spawning (mpc stopped_station)" by code_simp
  have ids: "spawned_ids stopped_station = [1]" by code_simp
  have se: "SimEnd \<in> set (printed drained_station)" by code_simp
  from cooperative_stop[OF r] nr ns st
  have a: "spawned_ids drained_station = spawned_ids stopped_station" by blast
  from cooperative_stop[OF r'] se
  have b: "list_all terminated (vehicle_threads drained_station)" by blast
  from r nr ns st ids a r' se b show ?thesis by blast
qed

section \<open>The configuration at the start, and the run that finds no pump\<close>

lemma empty_run_exec:
  assumes "max_vehicles s \<le> 0" "VEHICLE_COUNT s = 0" "\<not> spawning (mpc s)" "vehicle_threads s = []"
    and ex: "exec a s = Some s'"
  shows "max_vehicles s' \<le> 0 \<and> VEHICLE_COUNT s' = 0 \<and> \<not> spawning (mpc s') \<and> vehicle_threads s' = []"
proof (cases a)
  case Manager
  with assms show ?thesis by (cases "mpc s") (auto simp: emit_def split: if_splits)
next
  case (Vehicle k)
  with assms show ?thesis by simp
next
  case StopRequest
  with assms show ?thesis by auto
qed

lemma reachable_empty_run:
  "reachable n m s \<Longrightarrow> m \<le> 0 \<Longrightarrow>
   max_vehicles s \<le> 0 \<and> VEHICLE_COUNT s = 0 \<and> \<not> spawning (mpc s) \<and> vehicle_threads s = []"
proof (induction rule: reachable.induct)
  case start
  then show ?case by (simp add: init_station_def)
next
  case (step s a s')
  from step.IH[OF step.prems] empty_run_exec[OF _ _ _ _ step.hyps(2)] show ?case by blast
qed

text \<open>
  Claim C8 as the code has it. \<open>start_simulation\<close> rejects nothing: whatever the two
  numbers are, it never answers with a ConfigurationError; when no manager is alive it
  raises both numbers to at least 1 and starts the run with them. A StationManager built
  directly with \<open>max_vehicles \<le> 0\<close> is accepted as well: its run spawns no vehicle.
\<close>

theorem nonpositive_configuration_clamped:
  "start_simulation alive p v \<noteq> Some (Inl ConfigurationError)
   \<and> start_simulation False p v = Some (Inr (init_station (nat (max 1 p)) (max 1 v)))
   \<and> 1 \<le> NUM_PUMPS (init_station (nat (max 1 p)) (max 1 v))
   \<and> 1 \<le> max_vehicles (init_station (nat (max 1 p)) (max 1 v))
   \<and> (reachable n m s \<and> m \<le> 0 \<longrightarrow> vehicle_threads s = [])"
  using reachable_empty_run[of n m s]
  by (auto simp: start_simulation_def init_station_def Let_def)

theorem nonpositive_configuration_clamped_witness:
  "reachable 3 0 empty_run \<and> (0::int) \<le> 0 \<and> mpc empty_run = MDone \<and> vehicle_threads empty_run = []"
proof -
  have "run_schedule (replicate 5 Manager) (init_station 3 0) \<noteq> None" by code_simp
  then have "run_schedule (replicate 5 Manager) (init_station 3 0) = Some empty_run"
    by (auto simp: empty_run_def)
  then have r: "reachable 3 0 empty_run" by (rule run_schedule_from_start)
  have d: "mpc empty_run = MDone" by code_simp
  from nonpositive_configuration_clamped[of True 0 0 3 0 empty_run] r
  have "vehicle_threads empty_run = []" by simp
  with r d show ?thesis by simp
qed

text \<open>
  Claim C8 as stated fails: with 0 pumps and a vehicle maximum of \<open>-3\<close> entered, the run
  starts, with one pump and one vehicle.
\<close>

theorem nonpositive_configuration_not_rejected:
  "start_simulation False 0 (- 3) = Some (Inr (init_station 1 1))
   \<and> start_simulation False 0 (- 3) \<noteq> Some (Inl ConfigurationError)"
  by (simp add: start_simulation_def)

text \<open>
  Claim C1 fails on the code. One pump, two vehicles: the first vehicle claims pump 1,
  tanks, writes the release text and gives its slot back; the second vehicle then gets the
  slot (the only holder, \<open>sem = 0\<close>), scans, finds no entry passing the free test, and is
  in the error branch with its error line printed.
\<close>

theorem acquire_without_free_entry:
  "run_schedule (two_vehicle_schedule 9 6) (init_station 1 2)
     = Some \<lparr>NUM_PUMPS = 1, sem = 0, CASHIER_LOCK = False, CASHIER_BUSY = False,
             VEHICLE_COUNT = 2, pump_status = [fmt_released 1 1], pumps = [1],
             max_vehicles = 2, running = True, mpc = MDisplay,
             vehicle_threads = [\<lparr>vid = 1, pc = VPayWait, pump_id = 1\<rparr>,
                                \<lparr>vid = 2, pc = VErrorRelease, pump_id = - 1\<rparr>],
             status_cashier = False, status_pumps = [fmt_free 1],
             printed = [SimStart, Status False [fmt_free 1], Arrived 1, Tanking 1 1,
                        TankDone 1, Arrived 2, ErrorNoPump 2]\<rparr>"
  by code_simp

text \<open>
  In a run, a scan that has reached index \<open>i\<close> has no free entry below \<open>i\<close> at that moment,
  although the lock is given up between two entries: the entry it claims is the first
  free one of the moment of the claim.
\<close>

lemma scan_passed_entries_not_free:
  assumes "reachable n m s" and "k < length (vehicle_threads s)"
    and "pc (vehicle_threads s ! k) = VScan i" and "j < i"
  shows "\<not> is_free (pump_status s ! j)"
  using reachable_registry_inv[OF assms(1)] assms(2-4)
  by (auto simp: registry_inv_def vehicle_ok_def)

section \<open>The scan in a run, against the operation of the specification\<close>

lemma first_free_index:
  assumes "i < length ps" and "is_free (ps ! i)" and "\<forall>j<i. \<not> is_free (ps ! j)"
  shows "length (takeWhile (\<lambda>e. \<not> is_free e) ps) = i"
proof -
  let ?t = "takeWhile (\<lambda>e. \<not> is_free e) ps"
  have ge: "i \<le> length ?t"
    using assms by (intro length_takeWhile_less_P_nth) auto
  have "\<not> i < length ?t"
  proof
    assume l: "i < length ?t"
    then have "?t ! i = ps ! i" by (rule takeWhile_nth)
    moreover from l have "?t ! i \<in> set ?t" by (rule nth_mem)
    ultimately have "\<not> is_free (ps ! i)" by (auto dest: set_takeWhileD)
    with assms(2) show False by simp
  qed
  with ge show ?thesis by simp
qed

lemma spec_claim_first_free:
  assumes "i < length ps" and "is_free (ps ! i)" and "\<forall>j<i. \<not> is_free (ps ! j)"
  shows "spec_claimFreeSlot v ps = (ps[i := fmt_occupied (int i + 1) v], Some (int i + 1))"
  using first_free_index[OF assms] assms(1) by (simp add: spec_claimFreeSlot_def)

lemma spec_claim_none:
  assumes "\<forall>j<length ps. \<not> is_free (ps ! j)"
  shows "spec_claimFreeSlot v ps = (ps, None)"
proof -
  from assms have "\<forall>e\<in>set ps. \<not> is_free e" by (auto simp: in_set_conv_nth)
  then have "takeWhile (\<lambda>e. \<not> is_free e) ps = ps" by (simp add: takeWhile_eq_all_conv)
  then have l: "length (takeWhile (\<lambda>e. \<not> is_free e) ps) = length ps" by (rule arg_cong)
  show ?thesis unfolding spec_claimFreeSlot_def Let_def l by simp
qed

text \<open>
  Claim C2 as the code has it. In every run, one step of a vehicle's scan at index \<open>i\<close>
  is one pass through lines 72-76 under PRINT_LOCK; other threads may move between two
  such steps. At that step no entry below \<open>i\<close> is free. If entry \<open>i\<close> is free, the step is
  the operation of the specification on the registry of that moment: it writes the occupied
  text with the vehicle's id into entry \<open>i\<close>, which is then no longer free, changes no other
  entry, and sets \<open>pump_id\<close> to \<open>i + 1\<close>. If entry \<open>i\<close> is not free, the step changes no entry
  and the scan goes on at \<open>i + 1\<close>. Past the last entry the scan ends with \<open>pump_id = -1\<close>,
  and then no entry of the registry is free.
\<close>

theorem scan_claims_first_free_of_the_moment:
  assumes "reachable n m s" and "k < length (vehicle_threads s)"
    and "pc (vehicle_threads s ! k) = VScan i"
  shows "\<exists>s'. exec (Vehicle k) s = Some s'
      \<and> (\<forall>j<i. \<not> is_free (pump_status s ! j))
      \<and> (i < n \<and> is_free (pump_status s ! i) \<longrightarrow>
           (pump_status s', Some (pump_id (vehicle_threads s' ! k)))
             = spec_claimFreeSlot (vid (vehicle_threads s ! k)) (pump_status s)
           \<and> pump_status s' = (pump_status s)
                [i := ''D'' @ str_int (int i + 1) @ '': Zaj'' @ [CHR 0xC4, CHR 0x99]
                        @ ''ty przez V'' @ str_int (vid (vehicle_threads s ! k))]
           \<and> \<not> is_free (pump_status s' ! i)
           \<and> pump_id (vehicle_threads s' ! k) = int i + 1
           \<and> pc (vehicle_threads s' ! k) = VSelect)
      \<and> (i < n \<and> \<not> is_free (pump_status s ! i) \<longrightarrow>
           pump_status s' = pump_status s
           \<and> pump_id (vehicle_threads s' ! k) = - 1
           \<and> pc (vehicle_threads s' ! k) = VScan (Suc i))
      \<and> (\<not> i < n \<longrightarrow>
           spec_claimFreeSlot (vid (vehicle_threads s ! k)) (pump_status s) = (pump_status s, None)
           \<and> pump_status s' = pump_status s
           \<and> pump_id (vehicle_threads s' ! k) = - 1
           \<and> pc (vehicle_threads s' ! k) = VSelect)"
proof -
  let ?v = "vehicle_threads s ! k" and ?ps = "pump_status s"
  from reachable_registry_inv[OF assms(1)] assms(2)
  have np: "NUM_PUMPS s = n" and len: "length ?ps = n" and ok: "vehicle_ok n ?ps ?v"
    by (simp_all add: registry_inv_def)
  from ok assms(3) have pid: "pump_id ?v = - 1" and i: "i \<le> n"
    and seen: "\<forall>j<i. \<not> is_free (?ps ! j)"
    by (simp_all add: vehicle_ok_def)
  show ?thesis
  proof (cases "i < n")
    case False
    with i have "i = n" by simp
    with seen len have "\<forall>j<length ?ps. \<not> is_free (?ps ! j)" by simp
    from spec_claim_none[OF this] False assms(2,3) np pid seen show ?thesis by simp
  next
    case True
    show ?thesis
    proof (cases "is_free (?ps ! i)")
      case free: True
      from True len have il: "i < length ?ps" by simp
      from spec_claim_first_free[OF il free seen] True free il assms(2,3) np seen not_free_occupied
      show ?thesis by (simp add: scan_iteration_def fmt_occupied_def)
    next
      case nfree: False
      with True len assms(2,3) np pid seen show ?thesis by (simp add: scan_iteration_def)
    qed
  qed
qed

theorem scan_claims_first_free_of_the_moment_witness:
  "reachable 3 3 (the (run_schedule (butlast overtaken_scan) scan_start))
   \<and> pc (vehicle_threads (the (run_schedule (butlast overtaken_scan) scan_start)) ! 1) = VScan 2
   \<and> pump_status (the (run_schedule (butlast overtaken_scan) scan_start))
       = [''D1: Zaj'' @ [CHR 0xC4, CHR 0x99] @ ''ty przez V1'',
          ''D2: Zaj'' @ [CHR 0xC4, CHR 0x99] @ ''ty przez V3'', ''D3: Wolny'']
   \<and> (\<exists>s'. exec (Vehicle 1) (the (run_schedule (butlast overtaken_scan) scan_start)) = Some s'
        \<and> pump_status s'
           = [''D1: Zaj'' @ [CHR 0xC4, CHR 0x99] @ ''ty przez V1'',
              ''D2: Zaj'' @ [CHR 0xC4, CHR 0x99] @ ''ty przez V3'',
              ''D3: Zaj'' @ [CHR 0xC4, CHR 0x99] @ ''ty przez V2'']
        \<and> \<not> is_free (pump_status s' ! 2)
        \<and> pump_id (vehicle_threads s' ! 1) = 3 \<and> pc (vehicle_threads s' ! 1) = VSelect)"
proof -
  let ?s = "the (run_schedule (butlast overtaken_scan) scan_start)"
  have "run_schedule (replicate 19 Manager @ replicate 3 (Vehicle 0) @ replicate 2 (Vehicle 1))
          (init_station 3 3) \<noteq> None" by code_simp
  then have "run_schedule (replicate 19 Manager @ replicate 3 (Vehicle 0) @ replicate 2 (Vehicle 1))
          (init_station 3 3) = Some scan_start" by (auto simp: scan_start_def)
  then have r0: "reachable 3 3 scan_start" by (rule run_schedule_from_start)
  have "run_schedule (butlast overtaken_scan) scan_start \<noteq> None" by code_simp
  then have "run_schedule (butlast overtaken_scan) scan_start = Some ?s" by auto
  from run_schedule_reachable[OF r0 this] have r: "reachable 3 3 ?s" .
  have k: "1 < length (vehicle_threads ?s)" by code_simp
  have p: "pc (vehicle_threads ?s ! 1) = VScan 2" by code_simp
  have ps: "pump_status ?s
       = [''D1: Zaj'' @ [CHR 0xC4, CHR 0x99] @ ''ty przez V1'',
          ''D2: Zaj'' @ [CHR 0xC4, CHR 0x99] @ ''ty przez V3'', ''D3: Wolny'']" by code_simp
  have fr: "is_free (pump_status ?s ! 2)" by code_simp
  have lt: "(2::nat) < 3" by simp
  have t: "(pump_status ?s)
                [2 := ''D'' @ str_int 3 @ '': Zaj'' @ [CHR 0xC4, CHR 0x99]
                        @ ''ty przez V'' @ str_int (vid (vehicle_threads ?s ! 1))]
      = [''D1: Zaj'' @ [CHR 0xC4, CHR 0x99] @ ''ty przez V1'',
         ''D2: Zaj'' @ [CHR 0xC4, CHR 0x99] @ ''ty przez V3'',
         ''D3: Zaj'' @ [CHR 0xC4, CHR 0x99] @ ''ty przez V2'']" by code_simp
  have a: "int 2 + 1 = 3" by simp
  note th = scan_claims_first_free_of_the_moment[OF r k p]
  from th fr lt
  have "\<exists>s'. exec (Vehicle 1) ?s = Some s'
        \<and> pump_status s' = (pump_status ?s)
                [2 := ''D'' @ str_int (int 2 + 1) @ '': Zaj'' @ [CHR 0xC4, CHR 0x99]
                        @ ''ty przez V'' @ str_int (vid (vehicle_threads ?s ! 1))]
        \<and> \<not> is_free (pump_status s' ! 2)
        \<and> pump_id (vehicle_threads s' ! 1) = int 2 + 1 \<and> pc (vehicle_threads s' ! 1) = VSelect"
    by blast
  then have "\<exists>s'. exec (Vehicle 1) ?s = Some s'
        \<and> pump_status s'
           = [''D1: Zaj'' @ [CHR 0xC4, CHR 0x99] @ ''ty przez V1'',
              ''D2: Zaj'' @ [CHR 0xC4, CHR 0x99] @ ''ty przez V3'',
              ''D3: Zaj'' @ [CHR 0xC4, CHR 0x99] @ ''ty przez V2'']
        \<and> \<not> is_free (pump_status s' ! 2)
        \<and> pump_id (vehicle_threads s' ! 1) = 3 \<and> pc (vehicle_threads s' ! 1) = VSelect"
    unfolding a t .
  with r p ps show ?thesis by blast
qed

text \<open>
  Claim C2 as stated fails: the scan is not one operation under exclusive protection. The
  second vehicle starts its scan when pump 2 is the first free pump, which is what the
  operation of the specification would return; the third vehicle claims pump 2 while the
  second is between two entries, and the second vehicle's scan returns pump 3.
\<close>

theorem scan_is_not_one_operation:
  "pc (vehicle_threads scan_start ! 1) = VScan 0 \<and> vid (vehicle_threads scan_start ! 1) = 2
   \<and> pump_status scan_start
       = [''D1: Zaj'' @ [CHR 0xC4, CHR 0x99] @ ''ty przez V1'', ''D2: Wolny'', ''D3: Wolny'']
   \<and> snd (spec_claimFreeSlot 2 (pump_status scan_start)) = Some 2
   \<and> map_option (\<lambda>s. (pc (vehicle_threads s ! 1), pump_id (vehicle_threads s ! 1), pump_status s))
        (run_schedule overtaken_scan scan_start)
       = Some (VSelect, 3,
               [''D1: Zaj'' @ [CHR 0xC4, CHR 0x99] @ ''ty przez V1'',
                ''D2: Zaj'' @ [CHR 0xC4, CHR 0x99] @ ''ty przez V3'',
                ''D3: Zaj'' @ [CHR 0xC4, CHR 0x99] @ ''ty przez V2''])"
  by code_simp

section \<open>Occupied entries and free slots\<close>

lemma vstep_keeps_claim:
  assumes st: "vstep (pc v) v s = Some (v', t)" and c: "claimed v" and nr: "pc v \<noteq> VReleaseStatus"
    and f: "find (\<lambda>p. p = pump_id v) (pumps s) \<noteq> None"
  shows "claimed v' \<and> pump_id v' = pump_id v \<and> pump_status t = pump_status s"
  using assms by (cases "pc v") (auto simp: claimed_def emit_def split: option.splits)

lemma vstep_no_write:
  assumes st: "vstep (pc v) v s = Some (v', t)" and "pc v \<noteq> VReleaseStatus"
    and "\<forall>i. pc v = VScan i \<longrightarrow> \<not> (i < NUM_PUMPS s \<and> i < length (pump_status s) \<and> is_free (pump_status s ! i))"
  shows "pump_status t = pump_status s"
  using assms
  by (cases "pc v")
     (auto simp: emit_def scan_iteration_def split: option.splits if_splits)

lemma owned_inv_vehicle:
  assumes inv: "registry_inv n s" and own: "owned_inv s" and ex: "exec (Vehicle k) s = Some s'"
  shows "owned_inv s'"
proof -
  let ?vs = "vehicle_threads s" and ?ps = "pump_status s"
  from ex obtain v' t where k: "k < length ?vs"
    and st: "vstep (pc (?vs ! k)) (?vs ! k) s = Some (v', t)"
    and s': "s' = t\<lparr>vehicle_threads := ?vs[k := v']\<rparr>"
    by (rule exec_Vehicle_Some)
  let ?v = "?vs ! k"
  from inv k have np: "NUM_PUMPS s = n" and len: "length ?ps = n"
    and pm: "pumps s = map (\<lambda>i. int i + 1) [0..<n]"
    and ok: "vehicle_ok n ?ps ?v"
    by (simp_all add: registry_inv_def)
  from s' have vs': "vehicle_threads s' = ?vs[k := v']" and ps': "pump_status s' = pump_status t"
    by simp_all
  have owner: "\<exists>j<length ?vs. claimed (?vs ! j) \<and> entry_of (?vs ! j) = i"
    if "i < length ?ps" "shows_occupied (?ps ! i)" for i
    using own that by (simp add: owned_inv_def)
  have goal: "owned_inv s'"
    if "length (pump_status t) = length ?ps"
      and "\<And>i. i < length ?ps \<Longrightarrow> shows_occupied (pump_status t ! i) \<Longrightarrow>
             \<exists>j<length ?vs. claimed (?vs[k := v'] ! j) \<and> entry_of (?vs[k := v'] ! j) = i"
    using that vs' ps' by (simp add: owned_inv_def)
  show ?thesis
  proof (cases "pc ?v = VReleaseStatus")
    case True
    with ok have c: "claimed ?v" and r: "1 \<le> pump_id ?v" "pump_id ?v \<le> int n"
      by (auto simp: vehicle_ok_def claimed_def)
    from py_index_in_range[OF r] st True
    have t: "pump_status t = ?ps[entry_of ?v := fmt_released (pump_id ?v) (vid ?v)]"
      by (auto simp: entry_of_def len)
    show ?thesis
    proof (rule goal)
      show "length (pump_status t) = length ?ps" using t by simp
      fix i assume i: "i < length ?ps" and o: "shows_occupied (pump_status t ! i)"
      have ne: "i \<noteq> entry_of ?v"
      proof
        assume "i = entry_of ?v"
        with t i have "pump_status t ! i = fmt_released (pump_id ?v) (vid ?v)" by simp
        with o released_neq_occupied show False by (auto simp: shows_occupied_def)
      qed
      with t o have "shows_occupied (?ps ! i)" by simp
      from owner[OF i this] obtain j where j: "j < length ?vs" "claimed (?vs ! j)" "entry_of (?vs ! j) = i"
        by blast
      with ne have "j \<noteq> k" by auto
      with j show "\<exists>j<length ?vs. claimed (?vs[k := v'] ! j) \<and> entry_of (?vs[k := v'] ! j) = i"
        by auto
    qed
  next
    case nr: False
    show ?thesis
    proof (cases "\<exists>i. pc ?v = VScan i \<and> i < n \<and> is_free (?ps ! i)")
      case True
      then obtain i0 where sc: "pc ?v = VScan i0" and i0: "i0 < n" and fr: "is_free (?ps ! i0)"
        by blast
      from st sc i0 fr np len
      have t: "pump_status t = ?ps[i0 := fmt_occupied (int i0 + 1) (vid ?v)]"
        and v': "v' = ?v\<lparr>pc := VSelect, pump_id := int i0 + 1\<rparr>"
        by (auto simp: scan_iteration_def)
      from sc have nc: "\<not> claimed ?v" by (simp add: claimed_def)
      show ?thesis
      proof (rule goal)
        show "length (pump_status t) = length ?ps" using t by simp
        fix i assume i: "i < length ?ps" and o: "shows_occupied (pump_status t ! i)"
        show "\<exists>j<length ?vs. claimed (?vs[k := v'] ! j) \<and> entry_of (?vs[k := v'] ! j) = i"
        proof (cases "i = i0")
          case True
          with v' k have "claimed (?vs[k := v'] ! k) \<and> entry_of (?vs[k := v'] ! k) = i"
            by (simp add: claimed_def entry_of_def)
          with k show ?thesis by blast
        next
          case False
          with t o have "shows_occupied (?ps ! i)" by simp
          from owner[OF i this] obtain j where
            j: "j < length ?vs" "claimed (?vs ! j)" "entry_of (?vs ! j) = i" by blast
          with nc have "j \<noteq> k" by auto
          with j show ?thesis by auto
        qed
      qed
    next
      case False
      with np have "\<forall>i. pc ?v = VScan i \<longrightarrow>
          \<not> (i < NUM_PUMPS s \<and> i < length ?ps \<and> is_free (?ps ! i))"
        by auto
      from vstep_no_write[OF st nr this] have t: "pump_status t = ?ps" .
      show ?thesis
      proof (rule goal)
        show "length (pump_status t) = length ?ps" using t by simp
        fix i assume i: "i < length ?ps" and o: "shows_occupied (pump_status t ! i)"
        with t have "shows_occupied (?ps ! i)" by simp
        from owner[OF i this] obtain j where
          j: "j < length ?vs" "claimed (?vs ! j)" "entry_of (?vs ! j) = i" by blast
        show "\<exists>j<length ?vs. claimed (?vs[k := v'] ! j) \<and> entry_of (?vs[k := v'] ! j) = i"
        proof (cases "j = k")
          case jk: False
          with j show ?thesis by auto
        next
          case jk: True
          with j ok have "1 \<le> pump_id ?v" "pump_id ?v \<le> int n" by (auto simp: vehicle_ok_def)
          from find_pumps_Some[OF this] pm
          have "find (\<lambda>p. p = pump_id ?v) (pumps s) \<noteq> None" by simp
          from vstep_keeps_claim[OF st _ nr this] j jk
          have "claimed v'" "pump_id v' = pump_id ?v" by simp_all
          with j jk k have "claimed (?vs[k := v'] ! k) \<and> entry_of (?vs[k := v'] ! k) = i"
            by (simp add: entry_of_def)
          with k show ?thesis by blast
        qed
      qed
    qed
  qed
qed

lemma owned_inv_manager:
  assumes own: "owned_inv s" and ex: "mstep (mpc s) s = Some s'"
  shows "owned_inv s'"
proof -
  from mstep_frame[OF ex] obtain ys where ps: "pump_status s' = pump_status s"
    and vs: "vehicle_threads s' = vehicle_threads s @ ys" by blast
  show ?thesis
    unfolding owned_inv_def
  proof (intro allI impI)
    fix i assume "i < length (pump_status s')" "shows_occupied (pump_status s' ! i)"
    with own ps obtain j where "j < length (vehicle_threads s)"
      "claimed (vehicle_threads s ! j)" "entry_of (vehicle_threads s ! j) = i"
      by (auto simp: owned_inv_def)
    with vs show "\<exists>k<length (vehicle_threads s').
        claimed (vehicle_threads s' ! k) \<and> entry_of (vehicle_threads s' ! k) = i"
      by (auto simp: nth_append intro!: exI[of _ j])
  qed
qed

lemma free_not_occupied: "\<not> shows_occupied (fmt_free p)"
proof
  assume "shows_occupied (fmt_free p)"
  then obtain q x where "fmt_free p = fmt_occupied q x" by (auto simp: shows_occupied_def)
  with is_free_fmt_free[of p] not_free_occupied[of q x] show False by simp
qed

lemma reachable_owned_inv: "reachable n m s \<Longrightarrow> owned_inv s"
proof (induction rule: reachable.induct)
  case start
  show ?case by (simp add: owned_inv_def init_station_def free_not_occupied)
next
  case (step s a s')
  show ?case
  proof (cases a)
    case Manager
    with step.hyps(2) owned_inv_manager[OF step.IH, of s'] show ?thesis by simp
  next
    case (Vehicle k)
    with step.hyps(2) owned_inv_vehicle[OF reachable_registry_inv[OF step.hyps(1)] step.IH, of k s']
    show ?thesis by simp
  next
    case StopRequest
    with step.hyps(2) step.IH show ?thesis by (auto simp: owned_inv_def)
  qed
qed

text \<open>
  The order of lines 89 and 91. At every moment of every run with \<open>n\<close> pumps, the entries
  of the registry that show an occupant and the free slots of the semaphore together are at
  most \<open>n\<close>: a slot is never free again while the entry of its pump still shows the
  vehicle as the occupant.
\<close>

lemma occupied_entries_backed_by_slots:
  assumes "reachable n m s"
  shows "card (occupied_entries s) + sem s \<le> n"
proof -
  let ?vs = "vehicle_threads s"
  let ?C = "{k. k < length ?vs \<and> claimed (?vs ! k)}"
  have fin: "finite ?C" by simp
  from reachable_owned_inv[OF assms]
  have "occupied_entries s \<subseteq> (\<lambda>k. entry_of (?vs ! k)) ` ?C"
    by (auto simp: owned_inv_def occupied_entries_def)
  then have "card (occupied_entries s) \<le> card ((\<lambda>k. entry_of (?vs ! k)) ` ?C)"
    by (intro card_mono) (simp_all add: fin)
  also have "\<dots> \<le> card ?C" by (rule card_image_le[OF fin])
  also have "card ?C = length (filter claimed ?vs)" by (simp add: length_filter_conv_card)
  also have "\<dots> \<le> holders s"
  proof -
    have "\<And>v. claimed v \<Longrightarrow> holds_slot (pc v)"
      by (case_tac "pc v") (simp_all add: claimed_def)
    then have "filter claimed ?vs = filter claimed (filter (\<lambda>v. holds_slot (pc v)) ?vs)"
      by (auto simp: filter_filter intro!: filter_cong)
    then show ?thesis unfolding holders_def by (metis length_filter_le)
  qed
  finally have "card (occupied_entries s) \<le> holders s" .
  with reachable_sem_holders[OF assms] show ?thesis by simp
qed

text \<open>
  Claim C6 fails on the code. One pump, two vehicles: the first vehicle claims pump 1,
  tanks, and writes the text of line 89 into its entry while it still holds its slot
  (\<open>sem = 0\<close> after eight steps); with its ninth step it gives the slot back at line 91.
  The slot is then free (\<open>sem = 1\<close>) while the entry holds the release text, which does
  not pass the free test of line 73: the entry has not been set back to free.
\<close>

theorem released_entry_is_not_free:
  "run_schedule (two_vehicle_schedule 9 0) (init_station 1 2)
     = Some \<lparr>NUM_PUMPS = 1, sem = 1, CASHIER_LOCK = False, CASHIER_BUSY = False,
             VEHICLE_COUNT = 2, pump_status = [''D1: Wolny (zwolniony przez V1)''], pumps = [1],
             max_vehicles = 2, running = True, mpc = MDisplay,
             vehicle_threads = [\<lparr>vid = 1, pc = VPayWait, pump_id = 1\<rparr>,
                                \<lparr>vid = 2, pc = VStart, pump_id = - 1\<rparr>],
             status_cashier = False, status_pumps = [''D1: Wolny''],
             printed = [SimStart, Status False [''D1: Wolny''], Arrived 1, Tanking 1 1,
                        TankDone 1]\<rparr>
   \<and> map_option (\<lambda>s. (sem s, pump_status s, map pc (vehicle_threads s)))
        (run_schedule (two_vehicle_schedule 8 0) (init_station 1 2))
       = Some (0, [''D1: Wolny (zwolniony przez V1)''], [VReleaseSem, VStart])
   \<and> \<not> is_free (''D1: Wolny (zwolniony przez V1)'') \<and> is_free (''D1: Wolny'')"
  by code_simp

end
